theory Spec2Isabelle
  imports Complex_Main "HOL-Library.Word"
begin

unbundle bit_operations_syntax

section \<open>The HyperLogLog sketches of src/task3/dsa5.cpp\<close>

text \<open>
  The file holds two sketch classes, \<^verbatim>\<open>HLL\<close> (one \<^verbatim>\<open>int\<close> per register) and
  \<^verbatim>\<open>HLL_Improved\<close> (one \<^verbatim>\<open>std::bitset<5>\<close> per register), and the string hash
  \<^verbatim>\<open>HashGen::hash\<close> that the driver injects into both.

  Conventions of the embedding.
  \<^item> \<^verbatim>\<open>uint32_t\<close> is \<open>32 word\<close>, \<^verbatim>\<open>unsigned long long\<close> is \<open>64 word\<close>,
    \<^verbatim>\<open>std::bitset<5>\<close> is \<open>5 word\<close> (construction from an integer keeps the low
    five bits, \<^verbatim>\<open>to_ulong\<close> is \<open>uint\<close>).
  \<^item> \<^verbatim>\<open>int\<close> values (register contents, counters, \<^verbatim>\<open>m\<close>) are \<open>int\<close>; none of them
    leaves the 32-bit range for a precision of at most 16. The precision \<^verbatim>\<open>B\<close> is only
    ever used as a shift amount and is a \<open>nat\<close>.
  \<^item> \<^verbatim>\<open>double\<close> is idealised as \<open>real\<close>: the rounding of the floating-point
    operations is not modelled.
  \<^item> A call that has no defined result in C++ (the \<^verbatim>\<open>while\<close> loop of
    \<^verbatim>\<open>count_zeros\<close> not terminating, \<^verbatim>\<open>regs[idx]\<close> outside the vector) is \<open>None\<close>.
  \<^item> The shifts are defined in C++ for amounts below the width only: \<^verbatim>\<open>h >> (32 - B)\<close>
    needs \<open>1 \<le> B \<le> 32\<close>, \<^verbatim>\<open>1 << b\<close> needs \<open>b \<le> 30\<close>, \<^verbatim>\<open>1ULL << r\<close> needs
    \<open>0 \<le> r < 64\<close>. The theorems below stay inside these ranges; the source does not
    check them.
\<close>

subsection \<open>Data\<close>

type_synonym hash_fn = "string \<Rightarrow> 32 word"

text \<open>
  Both classes declare the same members \<^verbatim>\<open>B\<close>, \<^verbatim>\<open>m\<close>, \<^verbatim>\<open>regs\<close>, \<^verbatim>\<open>hash_func\<close>;
  they differ in the element type of \<^verbatim>\<open>regs\<close> only.
\<close>

record 'r sketch =
  B :: nat
  m :: int
  regs :: "'r list"
  hash_func :: hash_fn

type_synonym HLL = "int sketch"
type_synonym HLL_Improved = "5 word sketch"

subsection \<open>HashGen::hash\<close>

text \<open>\<^verbatim>\<open>h = h * 31 + (unsigned char) c\<close> for every character, in \<^verbatim>\<open>uint32_t\<close>.\<close>

definition hash :: hash_fn where
  "hash str = foldl (\<lambda>h c. h * 31 + of_nat (of_char c)) 0 str"

subsection \<open>count_zeros (the same text in both classes)\<close>

partial_function (option) count_zeros_loop :: "32 word \<Rightarrow> int \<Rightarrow> int option" where
  "count_zeros_loop x zeros =
     (if x AND 0x80000000 = 0 then count_zeros_loop (push_bit 1 x) (zeros + 1) else Some zeros)"

declare count_zeros_loop.simps [code]

definition count_zeros :: "nat \<Rightarrow> 32 word \<Rightarrow> int option" where
  "count_zeros b x = (if x = 0 then Some (32 - int b) else count_zeros_loop x 0)"

subsection \<open>Constructors\<close>

text \<open>\<^verbatim>\<open>B(b), m(1<<b), regs(m, 0), hash_func(h)\<close>; \<^verbatim>\<open>1<<b\<close> is \<open>2 ^ b\<close> for \<open>b \<le> 30\<close>.\<close>

definition HLL_new :: "nat \<Rightarrow> hash_fn \<Rightarrow> HLL" where
  "HLL_new b h = \<lparr>B = b, m = 2 ^ b, regs = replicate (nat (2 ^ b)) 0, hash_func = h\<rparr>"

text \<open>\<^verbatim>\<open>regs(m)\<close>: every bitset is value-initialised to zero.\<close>

definition HLL_Improved_new :: "nat \<Rightarrow> hash_fn \<Rightarrow> HLL_Improved" where
  "HLL_Improved_new b h = \<lparr>B = b, m = 2 ^ b, regs = replicate (nat (2 ^ b)) 0, hash_func = h\<rparr>"

subsection \<open>add\<close>

definition HLL_add :: "HLL \<Rightarrow> string \<Rightarrow> HLL option" where
  "HLL_add s str =
     (let h = hash_func s str;
          idx = unat (drop_bit (32 - B s) h);
          w = push_bit (B s) h
      in case count_zeros (B s) w of
           None \<Rightarrow> None
         | Some c \<Rightarrow>
             let zeros = c + 1 in
             if idx < length (regs s)
             then (if zeros > regs s ! idx
                   then Some (s\<lparr>regs := (regs s)[idx := zeros]\<rparr>)
                   else Some s)
             else None)"

definition HLL_Improved_add :: "HLL_Improved \<Rightarrow> string \<Rightarrow> HLL_Improved option" where
  "HLL_Improved_add s str =
     (let h = hash_func s str;
          idx = unat (drop_bit (32 - B s) h);
          w = push_bit (B s) h
      in case count_zeros (B s) w of
           None \<Rightarrow> None
         | Some c \<Rightarrow>
             let zeros0 = c + 1;
                 zeros = (if zeros0 > 31 then 31 else zeros0) in
             if idx < length (regs s)
             then (if zeros > uint (regs s ! idx)
                   then Some (s\<lparr>regs := (regs s)[idx := word_of_int zeros]\<rparr>)
                   else Some s)
             else None)"

subsection \<open>estimate\<close>

text \<open>
  The loop body, for a register whose value has been read into the \<^verbatim>\<open>int\<close> \<open>r\<close>
  (\<^verbatim>\<open>r\<close> itself in \<^verbatim>\<open>HLL\<close>, \<^verbatim>\<open>val = r.to_ulong()\<close> in \<^verbatim>\<open>HLL_Improved\<close>):
  \<^verbatim>\<open>if (r == 0) zero_regs++; sum += 1.0 / (1ULL << r);\<close>
  The accumulator is the pair of \<^verbatim>\<open>sum\<close> and \<^verbatim>\<open>zero_regs\<close>.
\<close>

definition estimate_body :: "real \<times> int \<Rightarrow> int \<Rightarrow> real \<times> int" where
  "estimate_body acc r =
     (case acc of (sum_r, zero_regs) \<Rightarrow>
        (sum_r + 1 / real (unat (push_bit (nat r) (1 :: 64 word))),
         if r = 0 then zero_regs + 1 else zero_regs))"

text \<open>
  The lines after the loop:
  \<^verbatim>\<open>E = 0.7213 * m * m / sum; if (E <= 2.5 * m && zero_regs > 0) E = m * log((double)m / zero_regs);\<close>
\<close>

definition estimate_final :: "int \<Rightarrow> real \<times> int \<Rightarrow> real" where
  "estimate_final mm acc =
     (case acc of (sum_r, zero_regs) \<Rightarrow>
        let E = 0.7213 * real_of_int mm * real_of_int mm / sum_r in
        if E \<le> 2.5 * real_of_int mm \<and> zero_regs > 0
        then real_of_int mm * ln (real_of_int mm / real_of_int zero_regs)
        else E)"

definition HLL_estimate :: "HLL \<Rightarrow> real" where
  "HLL_estimate s = estimate_final (m s) (foldl estimate_body (0, 0) (regs s))"

definition HLL_Improved_estimate :: "HLL_Improved \<Rightarrow> real" where
  "HLL_Improved_estimate s =
     estimate_final (m s) (foldl (\<lambda>acc r. estimate_body acc (uint r)) (0, 0) (regs s))"

text \<open>
  \<^verbatim>\<open>estimate()\<close> is not declared \<^verbatim>\<open>const\<close>, so what a call does to the object is
  part of its behaviour. The two functions above give the number returned as a function
  of the members. The definitions below run the body statement by statement on a frame
  that holds the object and the locals \<^verbatim>\<open>sum\<close> and \<^verbatim>\<open>zero_regs\<close>, and return the
  number together with the object as the body leaves it. Iteration \<open>i\<close> of the
  range-based \<^verbatim>\<open>for\<close> reads element \<open>i\<close> of \<^verbatim>\<open>regs\<close> of the object as it is at that
  moment: \<^verbatim>\<open>int r\<close> copies it in \<^verbatim>\<open>HLL\<close>; \<^verbatim>\<open>auto& r\<close> refers to it in
  \<^verbatim>\<open>HLL_Improved\<close>, where the body calls \<^verbatim>\<open>r.to_ulong()\<close> on it. The range is fixed
  when the loop starts.
\<close>

record 'r estimate_frame =
  self :: "'r sketch"
  locals :: "real \<times> int"

definition HLL_estimate_iter :: "int estimate_frame \<Rightarrow> nat \<Rightarrow> int estimate_frame" where
  "HLL_estimate_iter fr i =
     (let r = regs (self fr) ! i
      in fr\<lparr>locals := estimate_body (locals fr) r\<rparr>)"

definition HLL_estimate_call :: "HLL \<Rightarrow> real \<times> HLL" where
  "HLL_estimate_call s =
     (let fr = foldl HLL_estimate_iter \<lparr>self = s, locals = (0, 0)\<rparr> [0..<length (regs s)]
      in (estimate_final (m (self fr)) (locals fr), self fr))"

definition HLL_Improved_estimate_iter ::
    "5 word estimate_frame \<Rightarrow> nat \<Rightarrow> 5 word estimate_frame" where
  "HLL_Improved_estimate_iter fr i =
     (let val = uint (regs (self fr) ! i)
      in fr\<lparr>locals := estimate_body (locals fr) val\<rparr>)"

definition HLL_Improved_estimate_call :: "HLL_Improved \<Rightarrow> real \<times> HLL_Improved" where
  "HLL_Improved_estimate_call s =
     (let fr = foldl HLL_Improved_estimate_iter \<lparr>self = s, locals = (0, 0)\<rparr>
                 [0..<length (regs s)]
      in (estimate_final (m (self fr)) (locals fr), self fr))"

subsection \<open>clear and memory_usage\<close>

text \<open>\<^verbatim>\<open>fill(regs.begin(), regs.end(), 0)\<close>\<close>

definition HLL_clear :: "HLL \<Rightarrow> HLL" where
  "HLL_clear s = s\<lparr>regs := map (\<lambda>_. 0) (regs s)\<rparr>"

text \<open>\<^verbatim>\<open>return m * 5 / 8;\<close> on \<^verbatim>\<open>int\<close>, converted to \<^verbatim>\<open>size_t\<close>.\<close>

definition memory_usage :: "HLL_Improved \<Rightarrow> nat" where
  "memory_usage s = nat (m s * 5 div 8)"

subsection \<open>The callers\<close>

text \<open>
  The drivers feed a stream to one sketch, \<^verbatim>\<open>for(std::string& s : stream) hll.add(s);\<close>,
  and call \<^verbatim>\<open>estimate()\<close> in between. A sequence of calls on one object passes the
  object from call to call: \<^verbatim>\<open>add\<close> hands on the sketch it leaves, and so does
  \<^verbatim>\<open>estimate\<close>, whose number is appended to the output.
\<close>

fun add_all :: "('s \<Rightarrow> string \<Rightarrow> 's option) \<Rightarrow> 's \<Rightarrow> string list \<Rightarrow> 's option" where
  "add_all add s [] = Some s"
| "add_all add s (x # xs) = (case add s x of None \<Rightarrow> None | Some s' \<Rightarrow> add_all add s' xs)"

datatype call = Add string | Estimate

fun calls :: "('s \<Rightarrow> string \<Rightarrow> 's option) \<Rightarrow> ('s \<Rightarrow> real \<times> 's) \<Rightarrow> 's \<Rightarrow> call list
    \<Rightarrow> ('s \<times> real list) option" where
  "calls add est s [] = Some (s, [])"
| "calls add est s (Add x # cs) =
     (case add s x of None \<Rightarrow> None | Some s' \<Rightarrow> calls add est s' cs)"
| "calls add est s (Estimate # cs) =
     (case est s of (v, s') \<Rightarrow>
        (case calls add est s' cs of None \<Rightarrow> None | Some (s'', out) \<Rightarrow> Some (s'', v # out)))"

fun adds_of :: "call list \<Rightarrow> string list" where
  "adds_of [] = []"
| "adds_of (Add x # cs) = x # adds_of cs"
| "adds_of (Estimate # cs) = adds_of cs"

subsection \<open>Notions of the specification\<close>

text \<open>
  The number of leading zero bits of \<open>w\<close> counted within its top \<open>32 - b\<close> bits
  (bit positions 31 down to \<open>b\<close>).
\<close>

definition leading_zeros_window :: "nat \<Rightarrow> 32 word \<Rightarrow> nat" where
  "leading_zeros_window b w = length (takeWhile (\<lambda>i. \<not> bit w i) (rev [b..<32]))"

text \<open>The register index and the rank of a hash value, as the specification words them.\<close>

definition index_of :: "nat \<Rightarrow> 32 word \<Rightarrow> nat" where
  "index_of b h = unat (drop_bit (32 - b) h)"

definition rank_of :: "nat \<Rightarrow> 32 word \<Rightarrow> int" where
  "rank_of b h = int (leading_zeros_window b (push_bit b h)) + 1"

text \<open>
  The estimate as the specification words it, from \<open>m\<close> and the register values:
  \<open>Z\<close> is the sum of \<open>2\<close> to the power minus the value, \<open>zeroCount\<close> the number of
  registers holding 0.
\<close>

definition spec_Z :: "int list \<Rightarrow> real" where
  "spec_Z vals = (\<Sum>v\<leftarrow>vals. 2 powr (- real_of_int v))"

definition spec_zeroCount :: "int list \<Rightarrow> int" where
  "spec_zeroCount vals = int (length (filter (\<lambda>v. v = 0) vals))"

definition spec_E_raw :: "int \<Rightarrow> int list \<Rightarrow> real" where
  "spec_E_raw mm vals = 0.7213 * (real_of_int mm)\<^sup>2 / spec_Z vals"

definition spec_estimate :: "int \<Rightarrow> int list \<Rightarrow> real" where
  "spec_estimate mm vals =
     (if spec_E_raw mm vals \<le> 2.5 * real_of_int mm \<and> spec_zeroCount vals > 0
      then real_of_int mm * ln (real_of_int mm / real_of_int (spec_zeroCount vals))
      else spec_E_raw mm vals)"

text \<open>
  The divisor of the raw estimate: the value of \<^verbatim>\<open>sum\<close> when the loop of
  \<^verbatim>\<open>estimate\<close> has run over the register values \<open>rs\<close>; and what the loop body adds
  to \<^verbatim>\<open>sum\<close> for one register of value \<open>r\<close>.
\<close>

definition loop_sum :: "int list \<Rightarrow> real" where
  "loop_sum rs = fst (foldl estimate_body (0, 0) rs)"

definition contribution :: "int \<Rightarrow> real" where
  "contribution r = fst (estimate_body (0, 0) r)"

text \<open>The register values of a compact sketch, read through \<^verbatim>\<open>to_ulong\<close>.\<close>

definition values_of :: "HLL_Improved \<Rightarrow> int list" where
  "values_of s = map uint (regs s)"

subsection \<open>Well-formed sketches\<close>

text \<open>
  What the constructors establish for a precision in \<open>[1, 16]\<close> and \<^verbatim>\<open>add\<close> and
  \<^verbatim>\<open>clear\<close> keep: \<open>m = 2 ^ B\<close> registers, each holding 0 or a rank.
\<close>

definition HLL_wf :: "HLL \<Rightarrow> bool" where
  "HLL_wf s \<longleftrightarrow> 1 \<le> B s \<and> B s \<le> 16 \<and> m s = 2 ^ B s \<and> length (regs s) = 2 ^ B s
     \<and> list_all (\<lambda>r. 0 \<le> r \<and> r \<le> 33 - int (B s)) (regs s)"

definition HLL_Improved_wf :: "HLL_Improved \<Rightarrow> bool" where
  "HLL_Improved_wf s \<longleftrightarrow> 1 \<le> B s \<and> B s \<le> 16 \<and> m s = 2 ^ B s \<and> length (regs s) = 2 ^ B s"

text \<open>The two stores hold the same logical register values.\<close>

definition same_values :: "HLL \<Rightarrow> HLL_Improved \<Rightarrow> bool" where
  "same_values s t \<longleftrightarrow> B s = B t \<and> m s = m t \<and> hash_func s = hash_func t
     \<and> regs s = values_of t"

section \<open>The leading-zero count\<close>

lemma top_bit_test: "(x AND 0x80000000 = 0) = (\<not> bit x 31)" for x :: "32 word"
proof -
  have "(0x80000000 :: 32 word) = 2 ^ 31" by simp
  then show ?thesis by (simp only: and_exp_eq_0_iff_not_bit)
qed

lemma loop_highest:
  "bit x j \<Longrightarrow> j < 32 \<Longrightarrow> (\<forall>i. j < i \<and> i < 32 \<longrightarrow> \<not> bit x i) \<Longrightarrow>
     count_zeros_loop x z = Some (z + int (31 - j))" for x :: "32 word"
proof (induction "31 - j" arbitrary: x j z)
  case 0
  then have "j = 31" by simp
  with 0 show ?case by (subst count_zeros_loop.simps) (simp add: top_bit_test)
next
  case (Suc n)
  then have j: "j < 31" by simp
  with Suc.prems have nb: "\<not> bit x 31" by simp
  have b1: "bit (push_bit 1 x) (Suc j)" using Suc.prems j unfolding bit_push_bit_iff by simp
  have b2: "\<forall>i. Suc j < i \<and> i < 32 \<longrightarrow> \<not> bit (push_bit 1 x) i"
  proof (intro allI impI)
    fix i assume i: "Suc j < i \<and> i < 32"
    then have "j < i - 1 \<and> i - 1 < 32" by arith
    then have "\<not> bit x (i - 1)" using Suc.prems(3) by blast
    then show "\<not> bit (push_bit 1 x) i" unfolding bit_push_bit_iff by simp
  qed
  have "n = 31 - Suc j" using Suc.hyps(2) by simp
  from Suc.hyps(1)[OF this b1 _ b2, of "z + 1"] j
  have "count_zeros_loop (push_bit 1 x) (z + 1) = Some (z + 1 + int (31 - Suc j))" by simp
  then show ?case using nb j
    by (subst count_zeros_loop.simps) (simp add: top_bit_test)
qed

lemma window_highest:
  assumes "bit w j" "b \<le> j" "j < 32" "\<forall>i. j < i \<and> i < 32 \<longrightarrow> \<not> bit w i"
  shows "leading_zeros_window b w = 31 - j"
proof -
  have "[b..<32] = [b..<j] @ j # [Suc j..<32]"
    using assms(2,3) upt_add_eq_append[of b j "32 - j"] upt_conv_Cons[of j 32] by simp
  then have "rev [b..<32] = rev [Suc j..<32] @ j # rev [b..<j]" by simp
  moreover have "\<forall>i\<in>set (rev [Suc j..<32]). \<not> bit w i" using assms(4) by auto
  then have "takeWhile (\<lambda>i. \<not> bit w i) (rev [Suc j..<32] @ j # rev [b..<j])
      = rev [Suc j..<32] @ takeWhile (\<lambda>i. \<not> bit w i) (j # rev [b..<j])"
    by (intro takeWhile_append2) blast
  ultimately have "takeWhile (\<lambda>i. \<not> bit w i) (rev [b..<32]) = rev [Suc j..<32]"
    using assms(1) by simp
  then show ?thesis using assms(3) by (simp add: leading_zeros_window_def)
qed

lemma window_zero: "leading_zeros_window b 0 = 32 - b"
  by (simp add: leading_zeros_window_def takeWhile_eq_all_conv[THEN iffD2])

lemma window_le: "leading_zeros_window b w \<le> 32 - b"
  unfolding leading_zeros_window_def
  by (rule order_trans[OF length_takeWhile_le]) simp

lemma highest_bit_ex:
  fixes x :: "32 word"
  assumes "x \<noteq> 0"
  shows "\<exists>j. bit x j \<and> j < 32 \<and> (\<forall>i. j < i \<and> i < 32 \<longrightarrow> \<not> bit x i)"
proof -
  from assms obtain k where k: "bit x k" by (auto simp add: bit_eq_iff)
  define j where "j = (GREATEST i. bit x i)"
  have bnd: "\<forall>i. bit x i \<longrightarrow> i \<le> 31"
  proof (intro allI impI)
    fix i assume "bit x i"
    then show "i \<le> 31" using bit_imp_le_length[of x i] by simp
  qed
  have bj: "bit x j" unfolding j_def using k bnd GreatestI_nat[of "bit x" k 31] by blast
  have mx: "\<And>i. bit x i \<Longrightarrow> i \<le> j"
    unfolding j_def using bnd Greatest_le_nat[of "bit x" _ 31] by blast
  have "\<forall>i. j < i \<and> i < 32 \<longrightarrow> \<not> bit x i" using mx by (meson not_less)
  then show ?thesis using bj bit_imp_le_length[of x j] by (intro exI[of _ j]) simp
qed

lemma count_zeros_window:
  assumes "b \<le> 32"
  shows "count_zeros b (push_bit b h) = Some (int (leading_zeros_window b (push_bit b h)))"
proof (cases "push_bit b h = 0")
  case True
  then show ?thesis using assms by (simp add: count_zeros_def window_zero)
next
  case False
  from highest_bit_ex[OF this] obtain j where
    j: "bit (push_bit b h) j" "j < 32" "\<forall>i. j < i \<and> i < 32 \<longrightarrow> \<not> bit (push_bit b h) i"
    by blast
  from j(1) have "b \<le> j" by (simp add: bit_push_bit_iff)
  from window_highest[OF j(1) this j(2) j(3)] loop_highest[OF j, of 0] False
  show ?thesis by (simp add: count_zeros_def)
qed

lemma rank_of_bounds: "1 \<le> rank_of b h \<and> rank_of b h \<le> 33 - int b" if "b \<le> 32"
  using window_le[of b "push_bit b h"] that by (simp add: rank_of_def)

lemma index_of_less: "index_of b h < 2 ^ b" if "1 \<le> b" "b \<le> 32"
proof -
  have "unat h < 2 ^ 32" using unsigned_less[of h, where 'a=nat] by simp
  also have "(2::nat) ^ 32 = 2 ^ b * 2 ^ (32 - b)"
    using that by (simp flip: power_add)
  finally have "unat h div 2 ^ (32 - b) < 2 ^ b"
    by (simp add: less_mult_imp_div_less)
  then show ?thesis unfolding index_of_def unat_drop_bit_eq by (simp only: drop_bit_eq_div)
qed

lemma count_zeros_rank: "b \<le> 32 \<Longrightarrow> count_zeros b (push_bit b h) = Some (rank_of b h - 1)"
  using count_zeros_window[of b h] by (simp add: rank_of_def)

lemma HLL_add_eq:
  assumes "HLL_wf s"
  shows "HLL_add s x = Some (s\<lparr>regs := (regs s)[index_of (B s) (hash_func s x) :=
            max (regs s ! index_of (B s) (hash_func s x)) (rank_of (B s) (hash_func s x))]\<rparr>)"
proof -
  define i where "i = index_of (B s) (hash_func s x)"
  define r where "r = rank_of (B s) (hash_func s x)"
  from assms have b: "1 \<le> B s" "B s \<le> 32" and len: "length (regs s) = 2 ^ B s"
    by (simp_all add: HLL_wf_def)
  have i: "i < length (regs s)"
    using index_of_less[OF b] len by (simp add: i_def)
  have cz: "count_zeros (B s) (push_bit (B s) (hash_func s x)) = Some (r - 1)"
    using count_zeros_rank[OF b(2)] by (simp add: r_def)
  have add: "HLL_add s x = (if r > regs s ! i then Some (s\<lparr>regs := (regs s)[i := r]\<rparr>) else Some s)"
    using i cz by (simp add: HLL_add_def Let_def i_def index_of_def)
  show ?thesis
  proof (cases "r > regs s ! i")
    case True
    then show ?thesis using add by (simp add: max_def flip: i_def r_def)
  next
    case False
    then have "max (regs s ! i) r = regs s ! i" by simp
    then show ?thesis using add False by (simp flip: i_def r_def)
  qed
qed

lemma HLL_Improved_add_eq:
  assumes "HLL_Improved_wf s"
  shows "HLL_Improved_add s x = Some (s\<lparr>regs := (regs s)[index_of (B s) (hash_func s x) :=
            word_of_int (max (uint (regs s ! index_of (B s) (hash_func s x)))
                             (min (rank_of (B s) (hash_func s x)) 31))]\<rparr>)"
proof -
  define i where "i = index_of (B s) (hash_func s x)"
  define r where "r = rank_of (B s) (hash_func s x)"
  define z where "z = (if r > 31 then 31 else r)"
  from assms have b: "1 \<le> B s" "B s \<le> 32" and len: "length (regs s) = 2 ^ B s"
    by (simp_all add: HLL_Improved_wf_def)
  have i: "i < length (regs s)"
    using index_of_less[OF b] len by (simp add: i_def)
  have cz: "count_zeros (B s) (push_bit (B s) (hash_func s x)) = Some (r - 1)"
    using count_zeros_rank[OF b(2)] by (simp add: r_def)
  have z: "z = min r 31" by (simp add: z_def min_def)
  have add: "HLL_Improved_add s x =
      (if z > uint (regs s ! i) then Some (s\<lparr>regs := (regs s)[i := word_of_int z]\<rparr>) else Some s)"
    using i cz by (simp add: HLL_Improved_add_def Let_def i_def index_of_def z_def)
  show ?thesis
  proof (cases "z > uint (regs s ! i)")
    case True
    then show ?thesis using add by (simp add: max_def z flip: i_def r_def)
  next
    case False
    then have "max (uint (regs s ! i)) z = uint (regs s ! i)" by simp
    then have "s\<lparr>regs := (regs s)[i := word_of_int (max (uint (regs s ! i)) z)]\<rparr> = s"
      by simp
    moreover have "HLL_Improved_add s x = Some s" using add False by simp
    ultimately show ?thesis unfolding z i_def r_def by simp
  qed
qed

lemma HLL_add_wf:
  assumes "HLL_wf s" "HLL_add s x = Some s'"
  shows "HLL_wf s'"
proof -
  from assms(1) have b: "B s \<le> 32" by (simp add: HLL_wf_def)
  have "list_all (\<lambda>r. 0 \<le> r \<and> r \<le> 33 - int (B s)) ((regs s)[i := max (regs s ! i) (rank_of (B s) h)])"
    if "i < length (regs s)" for i h
  proof -
    have "\<forall>r \<in> set (regs s). 0 \<le> r \<and> r \<le> 33 - int (B s)"
      using assms(1) by (simp add: HLL_wf_def list_all_iff)
    moreover have "0 \<le> max (regs s ! i) (rank_of (B s) h) \<and> max (regs s ! i) (rank_of (B s) h) \<le> 33 - int (B s)"
      using calculation that rank_of_bounds[OF b, of h] nth_mem[OF that] by (auto simp: max_def)
    ultimately show ?thesis
      using set_update_subset_insert[of "regs s" i "max (regs s ! i) (rank_of (B s) h)"]
      unfolding list_all_iff by blast
  qed
  moreover have "index_of (B s) (hash_func s x) < length (regs s)"
    using assms(1) index_of_less[of "B s"] by (simp add: HLL_wf_def)
  ultimately show ?thesis
    using assms HLL_add_eq[OF assms(1), of x] by (auto simp add: HLL_wf_def)
qed

lemma HLL_Improved_add_wf:
  assumes "HLL_Improved_wf s" "HLL_Improved_add s x = Some s'"
  shows "HLL_Improved_wf s'"
  using assms HLL_Improved_add_eq[OF assms(1), of x] by (auto simp add: HLL_Improved_wf_def)

lemma HLL_new_wf: "1 \<le> b \<Longrightarrow> b \<le> 16 \<Longrightarrow> HLL_wf (HLL_new b h)"
  by (simp add: HLL_wf_def HLL_new_def list_all_iff)

lemma HLL_Improved_new_wf: "1 \<le> b \<Longrightarrow> b \<le> 16 \<Longrightarrow> HLL_Improved_wf (HLL_Improved_new b h)"
  by (simp add: HLL_Improved_wf_def HLL_Improved_new_def)

lemma HLL_clear_wf: "HLL_wf s \<Longrightarrow> HLL_wf (HLL_clear s)"
  by (simp add: HLL_wf_def HLL_clear_def list_all_iff)

lemma HLL_add_all_wf:
  "HLL_wf s \<Longrightarrow> \<exists>s'. add_all HLL_add s xs = Some s' \<and> HLL_wf s'"
proof (induction xs arbitrary: s)
  case Nil
  then show ?case by simp
next
  case (Cons x xs)
  from HLL_add_eq[OF Cons.prems, of x] obtain s1 where s1: "HLL_add s x = Some s1" by blast
  with Cons.prems have "HLL_wf s1" by (rule HLL_add_wf)
  from Cons.IH[OF this] s1 show ?case by simp
qed

lemma HLL_Improved_add_all_wf:
  "HLL_Improved_wf s \<Longrightarrow> \<exists>s'. add_all HLL_Improved_add s xs = Some s' \<and> HLL_Improved_wf s'"
proof (induction xs arbitrary: s)
  case Nil
  then show ?case by simp
next
  case (Cons x xs)
  from HLL_Improved_add_eq[OF Cons.prems, of x] obtain s1 where s1: "HLL_Improved_add s x = Some s1" by blast
  with Cons.prems have "HLL_Improved_wf s1" by (rule HLL_Improved_add_wf)
  from Cons.IH[OF this] s1 show ?case by simp
qed

lemma uint_word5: "0 \<le> k \<Longrightarrow> k \<le> 31 \<Longrightarrow> uint (word_of_int k :: 5 word) = k"
  by (simp add: uint_word_of_int)

lemma uint5_le: "uint (w :: 5 word) \<le> 31"
  using uint_bounded[of w] by simp

lemma HLL_add_frame:
  assumes "HLL_wf s" "HLL_add s x = Some s'"
  shows "B s' = B s" "m s' = m s" "hash_func s' = hash_func s" "length (regs s') = length (regs s)"
    "regs s' ! index_of (B s) (hash_func s x) =
       max (regs s ! index_of (B s) (hash_func s x)) (rank_of (B s) (hash_func s x))"
    "j \<noteq> index_of (B s) (hash_func s x) \<Longrightarrow> regs s' ! j = regs s ! j"
proof -
  have i: "index_of (B s) (hash_func s x) < length (regs s)"
    using assms(1) index_of_less[of "B s"] by (simp add: HLL_wf_def)
  note eq = HLL_add_eq[OF assms(1), of x]
  show "B s' = B s" "m s' = m s" "hash_func s' = hash_func s" "length (regs s') = length (regs s)"
    using eq assms(2) by auto
  show "regs s' ! index_of (B s) (hash_func s x) =
       max (regs s ! index_of (B s) (hash_func s x)) (rank_of (B s) (hash_func s x))"
    using eq assms(2) i by auto
  show "j \<noteq> index_of (B s) (hash_func s x) \<Longrightarrow> regs s' ! j = regs s ! j"
    using eq assms(2) by auto
qed

lemma HLL_Improved_add_frame:
  assumes "HLL_Improved_wf s" "HLL_Improved_add s x = Some s'"
  shows "B s' = B s" "m s' = m s" "hash_func s' = hash_func s" "length (regs s') = length (regs s)"
    "uint (regs s' ! index_of (B s) (hash_func s x)) =
       max (uint (regs s ! index_of (B s) (hash_func s x))) (min (rank_of (B s) (hash_func s x)) 31)"
    "j \<noteq> index_of (B s) (hash_func s x) \<Longrightarrow> regs s' ! j = regs s ! j"
proof -
  have i: "index_of (B s) (hash_func s x) < length (regs s)"
    using assms(1) index_of_less[of "B s"] by (simp add: HLL_Improved_wf_def)
  have b: "B s \<le> 32" using assms(1) by (simp add: HLL_Improved_wf_def)
  note eq = HLL_Improved_add_eq[OF assms(1), of x]
  show "B s' = B s" "m s' = m s" "hash_func s' = hash_func s" "length (regs s') = length (regs s)"
    using eq assms(2) by auto
  have "0 \<le> max (uint (regs s ! index_of (B s) (hash_func s x))) (min (rank_of (B s) (hash_func s x)) 31)"
       "max (uint (regs s ! index_of (B s) (hash_func s x))) (min (rank_of (B s) (hash_func s x)) 31) \<le> 31"
    using uint5_le[of "regs s ! index_of (B s) (hash_func s x)"]
      uint_ge_0[of "regs s ! index_of (B s) (hash_func s x)"] by arith+
  then show "uint (regs s' ! index_of (B s) (hash_func s x)) =
       max (uint (regs s ! index_of (B s) (hash_func s x))) (min (rank_of (B s) (hash_func s x)) 31)"
    using eq assms(2) i uint_word5 by auto
  show "j \<noteq> index_of (B s) (hash_func s x) \<Longrightarrow> regs s' ! j = regs s ! j"
    using eq assms(2) by auto
qed

lemma HLL_add_mono:
  assumes "HLL_wf s" "HLL_add s x = Some s'"
  shows "regs s ! j \<le> regs s' ! j"
  using HLL_add_frame(5)[OF assms] HLL_add_frame(6)[OF assms, of j]
  by (cases "j = index_of (B s) (hash_func s x)") simp_all

lemma HLL_Improved_add_mono:
  assumes "HLL_Improved_wf s" "HLL_Improved_add s x = Some s'"
  shows "uint (regs s ! j) \<le> uint (regs s' ! j)"
  using HLL_Improved_add_frame(5)[OF assms] HLL_Improved_add_frame(6)[OF assms, of j]
  by (cases "j = index_of (B s) (hash_func s x)") simp_all

lemma HLL_add_all_frame:
  "HLL_wf s \<Longrightarrow> add_all HLL_add s xs = Some s' \<Longrightarrow>
     B s' = B s \<and> m s' = m s \<and> hash_func s' = hash_func s \<and> length (regs s') = length (regs s)
     \<and> regs s ! j \<le> regs s' ! j"
proof (induction xs arbitrary: s)
  case Nil
  then show ?case by simp
next
  case (Cons x xs)
  from Cons.prems(2) obtain s1 where s1: "HLL_add s x = Some s1" "add_all HLL_add s1 xs = Some s'"
    by (auto split: option.splits)
  have wf1: "HLL_wf s1" using Cons.prems(1) s1(1) by (rule HLL_add_wf)
  from Cons.IH[OF wf1 s1(2)] HLL_add_frame(1-4)[OF Cons.prems(1) s1(1)]
       HLL_add_mono[OF Cons.prems(1) s1(1), of j]
  show ?case by simp
qed

lemma HLL_Improved_add_all_frame:
  "HLL_Improved_wf s \<Longrightarrow> add_all HLL_Improved_add s xs = Some s' \<Longrightarrow>
     B s' = B s \<and> m s' = m s \<and> hash_func s' = hash_func s \<and> length (regs s') = length (regs s)
     \<and> uint (regs s ! j) \<le> uint (regs s' ! j)"
proof (induction xs arbitrary: s)
  case Nil
  then show ?case by simp
next
  case (Cons x xs)
  from Cons.prems(2) obtain s1 where
    s1: "HLL_Improved_add s x = Some s1" "add_all HLL_Improved_add s1 xs = Some s'"
    by (auto split: option.splits)
  have wf1: "HLL_Improved_wf s1" using Cons.prems(1) s1(1) by (rule HLL_Improved_add_wf)
  from Cons.IH[OF wf1 s1(2)] HLL_Improved_add_frame(1-4)[OF Cons.prems(1) s1(1)]
       HLL_Improved_add_mono[OF Cons.prems(1) s1(1), of j]
  show ?case by simp
qed

section \<open>Claims about add\<close>

text \<open>
  C3. For a precision in \<open>[1, 16]\<close> and every item, \<^verbatim>\<open>add\<close> takes \<open>h = hash_func item\<close>,
  the index \<open>h >> (32 - B)\<close> and the remainder \<open>h << B\<close>; \<^verbatim>\<open>count_zeros\<close> returns the
  number of leading zero bits of the remainder within its top \<open>32 - B\<close> bits, the rank is
  that number plus 1, and the register at the index becomes the maximum of its old value
  and the rank (of the rank cut at 31 in the compact sketch). When the remainder is 0 the
  rank is \<open>(32 - B) + 1\<close>.
\<close>

theorem add_index_and_rank:
  assumes "HLL_wf s" and "HLL_Improved_wf t"
  shows "count_zeros (B s) (push_bit (B s) (hash_func s x))
           = Some (int (leading_zeros_window (B s) (push_bit (B s) (hash_func s x))))
       \<and> HLL_add s x = Some (s\<lparr>regs := (regs s)[unat (drop_bit (32 - B s) (hash_func s x)) :=
             max (regs s ! unat (drop_bit (32 - B s) (hash_func s x)))
                 (int (leading_zeros_window (B s) (push_bit (B s) (hash_func s x))) + 1)]\<rparr>)
       \<and> HLL_Improved_add t x = Some (t\<lparr>regs := (regs t)[unat (drop_bit (32 - B t) (hash_func t x)) :=
             word_of_int (max (uint (regs t ! unat (drop_bit (32 - B t) (hash_func t x))))
                 (min (int (leading_zeros_window (B t) (push_bit (B t) (hash_func t x))) + 1) 31))]\<rparr>)
       \<and> (push_bit (B s) (hash_func s x) = 0 \<longrightarrow>
             int (leading_zeros_window (B s) (push_bit (B s) (hash_func s x))) + 1
               = (32 - int (B s)) + 1)"
proof -
  from assms(1) have b: "B s \<le> 32" by (simp add: HLL_wf_def)
  have "push_bit (B s) (hash_func s x) = 0 \<Longrightarrow>
      int (leading_zeros_window (B s) (push_bit (B s) (hash_func s x))) = 32 - int (B s)"
    using b by (simp add: window_zero)
  then show ?thesis
    using count_zeros_window[OF b, of "hash_func s x"]
      HLL_add_eq[OF assms(1), of x] HLL_Improved_add_eq[OF assms(2), of x]
    unfolding index_of_def rank_of_def by simp
qed

theorem add_index_and_rank_witness:
  "HLL_wf (HLL_new 4 hash) \<and> HLL_Improved_wf (HLL_Improved_new 4 hash)
   \<and> hash ''a'' = 97
   \<and> unat (drop_bit (32 - 4) (97 :: 32 word)) = 0
   \<and> push_bit 4 (97 :: 32 word) = 1552
   \<and> count_zeros 4 1552 = Some 21
   \<and> map_option regs (HLL_add (HLL_new 4 hash) ''a'')
        = Some [22, 0, 0, 0, 0, 0, 0, 0, 0, 0, 0, 0, 0, 0, 0, 0]
   \<and> map_option regs (HLL_Improved_add (HLL_Improved_new 4 hash) ''a'')
        = Some [22, 0, 0, 0, 0, 0, 0, 0, 0, 0, 0, 0, 0, 0, 0, 0]"
proof -
  have h1: "HLL_wf (HLL_new 4 hash)" by (simp add: HLL_new_wf)
  have h2: "HLL_Improved_wf (HLL_Improved_new 4 hash)" by (simp add: HLL_Improved_new_wf)
  have sel: "B (HLL_new 4 hash) = 4" "hash_func (HLL_new 4 hash) = hash"
    "regs (HLL_new 4 hash) = replicate 16 0"
    "B (HLL_Improved_new 4 hash) = 4" "hash_func (HLL_Improved_new 4 hash) = hash"
    "regs (HLL_Improved_new 4 hash) = replicate 16 0"
    by (simp_all add: HLL_new_def HLL_Improved_new_def)
  have ha: "hash ''a'' = 97" by (simp add: hash_def)
  have ix: "unat (drop_bit (32 - 4) (97 :: 32 word)) = 0" by (simp add: drop_bit_eq_div)
  have pb: "push_bit 4 (97 :: 32 word) = 1552" by simp
  have lz: "leading_zeros_window 4 1552 = 21" unfolding leading_zeros_window_def by code_simp
  have rep: "replicate 16 (0::'a::zero) = [0, 0, 0, 0, 0, 0, 0, 0, 0, 0, 0, 0, 0, 0, 0, 0]"
    by (simp add: numeral_eq_Suc)
  from add_index_and_rank[OF h1 h2, of "''a''"] h1 h2 ha
  show ?thesis
    unfolding sel ha ix pb lz rep by simp
qed

text \<open>
  C4. On both sketches, after \<^verbatim>\<open>add(item)\<close> the register at the index holds the maximum
  of its old value and the rank (the rank cut at 31 in the compact sketch), and along any
  sequence of \<^verbatim>\<open>add\<close> calls no register value decreases.
\<close>

theorem registers_never_decrease:
  assumes "HLL_wf s" and "HLL_Improved_wf t"
  shows "(\<exists>s'. HLL_add s x = Some s'
            \<and> regs s' ! index_of (B s) (hash_func s x)
                = max (regs s ! index_of (B s) (hash_func s x)) (rank_of (B s) (hash_func s x)))
       \<and> (\<exists>s'. add_all HLL_add s xs = Some s' \<and> length (regs s') = length (regs s)
            \<and> (\<forall>j < length (regs s). regs s ! j \<le> regs s' ! j))
       \<and> (\<exists>t'. HLL_Improved_add t x = Some t'
            \<and> uint (regs t' ! index_of (B t) (hash_func t x))
                = max (uint (regs t ! index_of (B t) (hash_func t x)))
                      (min (rank_of (B t) (hash_func t x)) 31))
       \<and> (\<exists>t'. add_all HLL_Improved_add t xs = Some t' \<and> length (regs t') = length (regs t)
            \<and> (\<forall>j < length (regs t). uint (regs t ! j) \<le> uint (regs t' ! j)))"
proof -
  obtain s1 where s1: "HLL_add s x = Some s1"
    using HLL_add_eq[OF assms(1), of x] by blast
  obtain s2 where s2: "add_all HLL_add s xs = Some s2"
    using HLL_add_all_wf[OF assms(1), of xs] by blast
  obtain t1 where t1: "HLL_Improved_add t x = Some t1"
    using HLL_Improved_add_eq[OF assms(2), of x] by blast
  obtain t2 where t2: "add_all HLL_Improved_add t xs = Some t2"
    using HLL_Improved_add_all_wf[OF assms(2), of xs] by blast
  show ?thesis
    using s1 s2 t1 t2 HLL_add_frame(5)[OF assms(1) s1] HLL_Improved_add_frame(5)[OF assms(2) t1]
      HLL_add_all_frame[OF assms(1) s2] HLL_Improved_add_all_frame[OF assms(2) t2]
    by simp
qed

theorem registers_never_decrease_witness:
  "HLL_wf (HLL_new 4 hash) \<and> HLL_Improved_wf (HLL_Improved_new 4 hash)
   \<and> map_option regs (HLL_add (HLL_new 4 hash) ''a'')
        = Some [22, 0, 0, 0, 0, 0, 0, 0, 0, 0, 0, 0, 0, 0, 0, 0]
   \<and> map_option regs (add_all HLL_add (HLL_new 4 hash) [''a'', ''aAgaAXq'', ''abc''])
        = Some [22, 0, 0, 0, 0, 0, 0, 0, 29, 0, 0, 0, 0, 0, 0, 0]
   \<and> map_option regs (add_all HLL_Improved_add (HLL_Improved_new 4 hash) [''a'', ''aAgaAXq'', ''abc''])
        = Some [22, 0, 0, 0, 0, 0, 0, 0, 29, 0, 0, 0, 0, 0, 0, 0]"
proof -
  have h1: "HLL_wf (HLL_new 4 hash)" by (simp add: HLL_new_wf)
  have h2: "HLL_Improved_wf (HLL_Improved_new 4 hash)" by (simp add: HLL_Improved_new_wf)
  have e1: "map_option regs (HLL_add (HLL_new 4 hash) ''a'')
        = Some [22, 0, 0, 0, 0, 0, 0, 0, 0, 0, 0, 0, 0, 0, 0, 0]" by code_simp
  have e2: "map_option regs (add_all HLL_add (HLL_new 4 hash) [''a'', ''aAgaAXq'', ''abc''])
        = Some [22, 0, 0, 0, 0, 0, 0, 0, 29, 0, 0, 0, 0, 0, 0, 0]" by code_simp
  have e3: "map_option regs (add_all HLL_Improved_add (HLL_Improved_new 4 hash) [''a'', ''aAgaAXq'', ''abc''])
        = Some [22, 0, 0, 0, 0, 0, 0, 0, 29, 0, 0, 0, 0, 0, 0, 0]" by code_simp
  from registers_never_decrease[OF h1 h2, of "''a''" "[''a'', ''aAgaAXq'', ''abc'']"] h1 h2 e1 e2 e3
  show ?thesis by simp
qed

section \<open>memory_usage\<close>

text \<open>
  C2 as stated, \<open>memory_usage = \<lceil>m * 5 / 8\<rceil>\<close> for every precision, fails at precision 1:
  two registers need 10 bits, the ceiling is 2 and the function returns 1.
\<close>

theorem memory_usage_ceiling_counterexample:
  "memory_usage (HLL_Improved_new 1 hash) = 1
   \<and> nat \<lceil>real_of_int (m (HLL_Improved_new 1 hash)) * 5 / 8\<rceil> = 2"
  by (simp add: memory_usage_def HLL_Improved_new_def) 

text \<open>
  C2, amended. \<^verbatim>\<open>memory_usage\<close> returns \<open>m * 5 / 8\<close> rounded down; for a precision of
  at least 3 this is also the ceiling, and for precision 8 it is 160.
\<close>

theorem memory_usage_floor:
  assumes "HLL_Improved_wf s"
  shows "memory_usage s = nat \<lfloor>real_of_int (m s) * 5 / 8\<rfloor>
       \<and> (3 \<le> B s \<longrightarrow> memory_usage s = nat \<lceil>real_of_int (m s) * 5 / 8\<rceil>)
       \<and> (B s = 8 \<longrightarrow> memory_usage s = 160)"
proof -
  have fl: "\<lfloor>real_of_int (m s) * 5 / 8\<rfloor> = m s * 5 div 8"
    using floor_divide_of_int_eq[of "m s * 5" 8, where 'a=real] by simp
  have ce: "\<lceil>real_of_int (m s) * 5 / 8\<rceil> = m s * 5 div 8" if "3 \<le> B s"
  proof -
    have "(2::int) ^ B s = 2 ^ 3 * 2 ^ (B s - 3)"
      using that power_add[of "2::int" 3 "B s - 3"] by simp
    then have ms: "m s = 8 * 2 ^ (B s - 3)" using assms by (simp add: HLL_Improved_wf_def)
    have "real_of_int (m s) * 5 / 8 = real_of_int (5 * 2 ^ (B s - 3))" by (simp add: ms)
    then have "\<lceil>real_of_int (m s) * 5 / 8\<rceil> = 5 * 2 ^ (B s - 3)" by (simp only: ceiling_of_int)
    moreover have "m s * 5 div 8 = 5 * 2 ^ (B s - 3)" by (simp add: ms)
    ultimately show ?thesis by simp
  qed
  have "memory_usage s = 160" if "B s = 8"
    using assms that by (simp add: memory_usage_def HLL_Improved_wf_def)
  then show ?thesis using fl ce by (simp add: memory_usage_def)
qed

theorem memory_usage_floor_witness:
  "HLL_Improved_wf (HLL_Improved_new 8 hash) \<and> B (HLL_Improved_new 8 hash) = 8
   \<and> m (HLL_Improved_new 8 hash) = 256
   \<and> memory_usage (HLL_Improved_new 8 hash) = 160
   \<and> nat \<lceil>(256 :: real) * 5 / 8\<rceil> = 160"
proof -
  have h: "HLL_Improved_wf (HLL_Improved_new 8 hash)" by (simp add: HLL_Improved_new_wf)
  have b: "B (HLL_Improved_new 8 hash) = 8" "m (HLL_Improved_new 8 hash) = 256"
    by (simp_all add: HLL_Improved_new_def)
  from memory_usage_floor[OF h] h b show ?thesis by simp
qed

section \<open>The estimate\<close>

lemma unat_shift_one:
  assumes "n < 64"
  shows "unat (push_bit n (1 :: 64 word)) = 2 ^ n"
proof -
  have "(push_bit n 1 :: 64 word) = of_nat (2 ^ n)" by simp
  then have "unat (push_bit n (1 :: 64 word)) = 2 ^ n mod 2 ^ LENGTH(64)"
    by (simp only: unat_of_nat)
  then have "unat (push_bit n (1 :: 64 word)) = 2 ^ n mod 2 ^ 64" by simp
  moreover have "(2::nat) ^ n < 2 ^ 64"
    by (rule power_strict_increasing) (use assms in simp_all)
  ultimately show ?thesis by simp
qed

lemma register_term:
  assumes "0 \<le> r" "r < 64"
  shows "1 / real (unat (push_bit (nat r) (1 :: 64 word))) = 2 powr (- real_of_int r)"
proof -
  have "unat (push_bit (nat r) (1 :: 64 word)) = 2 ^ nat r"
    using assms by (intro unat_shift_one) simp
  moreover have "2 powr (- real_of_int r) = 1 / 2 ^ nat r"
    using assms by (simp add: powr_minus_divide powr_realpow[symmetric])
  ultimately show ?thesis by simp
qed

lemma foldl_estimate_body:
  "list_all (\<lambda>r. 0 \<le> r \<and> r < 64) rs \<Longrightarrow>
     foldl estimate_body (a, z) rs = (a + spec_Z rs, z + spec_zeroCount rs)"
proof (induction rs arbitrary: a z)
  case Nil
  then show ?case by (simp add: spec_Z_def spec_zeroCount_def)
next
  case (Cons r rs)
  then have r: "0 \<le> r" "r < 64" and rs: "list_all (\<lambda>r. 0 \<le> r \<and> r < 64) rs" by simp_all
  have "estimate_body (a, z) r = (a + 2 powr (- real_of_int r), if r = 0 then z + 1 else z)"
    using register_term[OF r] by (simp add: estimate_body_def)
  then show ?case using Cons.IH[OF rs] by (simp add: spec_Z_def spec_zeroCount_def)
qed

lemma foldl_estimate_body_uint:
  "foldl (\<lambda>acc r. estimate_body acc (uint r)) acc ws = foldl estimate_body acc (map uint ws)"
  by (simp add: foldl_map)

lemma values_in_range: "list_all (\<lambda>r. 0 \<le> r \<and> r < 64) (map uint (ws :: 5 word list))"
proof -
  have "0 \<le> uint w \<and> uint w < 64" for w :: "5 word"
    using uint5_le[of w] by simp
  then show ?thesis by (simp add: list_all_iff)
qed

lemma estimate_final_spec:
  "estimate_final mm (spec_Z vals, spec_zeroCount vals) = spec_estimate mm vals"
  by (simp add: estimate_final_def spec_estimate_def spec_E_raw_def Let_def power2_eq_square)

lemma HLL_estimate_spec:
  "list_all (\<lambda>r. 0 \<le> r \<and> r < 64) (regs s) \<Longrightarrow> HLL_estimate s = spec_estimate (m s) (regs s)"
  using foldl_estimate_body[of "regs s" 0 0] estimate_final_spec[of "m s" "regs s"]
  by (simp add: HLL_estimate_def)

lemma HLL_Improved_estimate_spec:
  "HLL_Improved_estimate t = spec_estimate (m t) (values_of t)"
  using foldl_estimate_body[OF values_in_range, of 0 0 "regs t"]
    estimate_final_spec[of "m t" "values_of t"]
  by (simp add: HLL_Improved_estimate_def foldl_estimate_body_uint values_of_def)

lemma HLL_wf_in_range: "HLL_wf s \<Longrightarrow> list_all (\<lambda>r. 0 \<le> r \<and> r < 64) (regs s)"
  by (auto simp add: HLL_wf_def list_all_iff)

text \<open>
  C7. \<^verbatim>\<open>estimate\<close> computes \<open>E_raw = 0.7213 * m\<^sup>2 / Z\<close>, where \<open>Z\<close> is the sum over the
  registers of \<open>2\<close> to the power minus the value, and returns \<open>m * ln (m / zeroCount)\<close>
  exactly when \<open>E_raw \<le> 2.5 * m\<close> and \<open>zeroCount > 0\<close>, and \<open>E_raw\<close> otherwise; with no
  register at 0 it returns \<open>E_raw\<close> whatever its size. For \<^verbatim>\<open>HLL\<close> the register values
  are taken in \<open>[0, 63]\<close>, where \<^verbatim>\<open>1ULL << r\<close> is defined; every value a sketch can hold
  lies there.
\<close>

theorem estimate_formula:
  assumes "list_all (\<lambda>r. 0 \<le> r \<and> r < 64) (regs s)"
  shows "HLL_estimate s =
           (if spec_E_raw (m s) (regs s) \<le> 2.5 * real_of_int (m s) \<and> spec_zeroCount (regs s) > 0
            then real_of_int (m s) * ln (real_of_int (m s) / real_of_int (spec_zeroCount (regs s)))
            else spec_E_raw (m s) (regs s))
       \<and> HLL_Improved_estimate t =
           (if spec_E_raw (m t) (values_of t) \<le> 2.5 * real_of_int (m t)
               \<and> spec_zeroCount (values_of t) > 0
            then real_of_int (m t) * ln (real_of_int (m t) / real_of_int (spec_zeroCount (values_of t)))
            else spec_E_raw (m t) (values_of t))
       \<and> (spec_zeroCount (regs s) = 0 \<longrightarrow> HLL_estimate s = spec_E_raw (m s) (regs s))
       \<and> (spec_zeroCount (values_of t) = 0 \<longrightarrow>
            HLL_Improved_estimate t = spec_E_raw (m t) (values_of t))"
  using HLL_estimate_spec[OF assms] HLL_Improved_estimate_spec[of t]
  by (simp add: spec_estimate_def)

theorem estimate_formula_witness:
  "list_all (\<lambda>r. 0 \<le> r \<and> r < 64) (regs \<lparr>B = 1, m = 2, regs = [32, 32 :: int], hash_func = hash\<rparr>)
   \<and> spec_zeroCount [32, 32] = 0
   \<and> spec_Z [32, 32] = 1 / 2 ^ 31
   \<and> HLL_estimate \<lparr>B = 1, m = 2, regs = [32, 32 :: int], hash_func = hash\<rparr> = 0.7213 * 2 ^ 33
   \<and> spec_Z (values_of \<lparr>B = 1, m = 2, regs = [31, 31 :: 5 word], hash_func = hash\<rparr>) = 1 / 2 ^ 30
   \<and> HLL_Improved_estimate \<lparr>B = 1, m = 2, regs = [31, 31 :: 5 word], hash_func = hash\<rparr> = 0.7213 * 2 ^ 32"
proof -
  have h: "list_all (\<lambda>r. 0 \<le> r \<and> r < 64) (regs \<lparr>B = 1, m = 2, regs = [32, 32 :: int], hash_func = hash\<rparr>)"
    by simp
  have z: "spec_zeroCount [32, 32] = 0" "spec_zeroCount [31, 31] = 0"
    by (simp_all add: spec_zeroCount_def)
  have Z: "spec_Z [32, 32] = 1 / 2 ^ 31" "spec_Z [31, 31] = 1 / 2 ^ 30"
    by (simp_all add: spec_Z_def powr_minus_divide)
  have v: "values_of \<lparr>B = 1, m = 2, regs = [31, 31 :: 5 word], hash_func = hash\<rparr> = [31, 31]"
    by (simp add: values_of_def)
  have e: "spec_E_raw 2 [32, 32] = 0.7213 * 2 ^ 33" "spec_E_raw 2 [31, 31] = 0.7213 * 2 ^ 32"
    by (simp_all add: spec_E_raw_def Z)
  from estimate_formula[OF h, of "\<lparr>B = 1, m = 2, regs = [31, 31 :: 5 word], hash_func = hash\<rparr>"] z v
  have a: "HLL_estimate \<lparr>B = 1, m = 2, regs = [32, 32 :: int], hash_func = hash\<rparr>
             = spec_E_raw 2 [32, 32]"
    and b: "HLL_Improved_estimate \<lparr>B = 1, m = 2, regs = [31, 31 :: 5 word], hash_func = hash\<rparr>
             = spec_E_raw 2 [31, 31]"
    by simp_all
  show ?thesis by (simp only: h z Z a b e v simp_thms)
qed






lemma contribution_eq: "0 \<le> r \<Longrightarrow> r < 64 \<Longrightarrow> contribution r = 1 / 2 ^ nat r"
  using unat_shift_one[of "nat r"] by (simp add: contribution_def estimate_body_def)

lemma contribution_bounds:
  assumes "0 \<le> r" "r < 64"
  shows "0 < contribution r" "contribution r \<le> 1"
  using contribution_eq[OF assms] by (simp_all add: divide_le_eq_1)

lemma foldl_estimate_body_fst:
  "fst (foldl estimate_body (a, z) rs) = a + (\<Sum>r\<leftarrow>rs. contribution r)"
proof (induction rs arbitrary: a z)
  case Nil
  then show ?case by simp
next
  case (Cons r rs)
  have "estimate_body (a, z) r = (a + contribution r, if r = 0 then z + 1 else z)"
    by (simp add: estimate_body_def contribution_def)
  then show ?case using Cons.IH by simp
qed

lemma loop_sum_contributions: "loop_sum rs = (\<Sum>r\<leftarrow>rs. contribution r)"
  by (simp add: loop_sum_def foldl_estimate_body_fst)

lemma loop_sum_pos:
  assumes "list_all (\<lambda>r. 0 \<le> r \<and> r < 64) rs" "rs \<noteq> []"
  shows "0 < loop_sum rs"
proof -
  have "\<forall>r \<in> set rs. 0 < contribution r"
    using assms(1) contribution_bounds(1) by (auto simp add: list_all_iff)
  then have "0 < (\<Sum>r\<leftarrow>rs. contribution r)"
    using assms(2)
  proof (induction rs)
    case Nil
    then show ?case by simp
  next
    case (Cons r rs)
    show ?case
    proof (cases "rs = []")
      case True
      then show ?thesis using Cons.prems by simp
    next
      case False
      then show ?thesis using Cons by (simp add: add_pos_pos)
    qed
  qed
  then show ?thesis by (simp add: loop_sum_contributions)
qed

text \<open>
  C8 as stated rests on every register adding at least \<open>2\<^sup>0 = 1\<close> to the sum. A register
  that holds a rank adds less: after \<^verbatim>\<open>add("a")\<close> on a fresh sketch of precision 4,
  register 0 holds 22 and adds \<open>1 / 2\<^sup>2\<^sup>2\<close>.
\<close>

theorem register_adds_less_than_one_counterexample:
  "map_option regs (HLL_add (HLL_new 4 hash) ''a'')
     = Some [22, 0, 0, 0, 0, 0, 0, 0, 0, 0, 0, 0, 0, 0, 0, 0]
   \<and> contribution 22 = 1 / 4194304
   \<and> \<not> 1 \<le> contribution 22"
proof -
  have "map_option regs (HLL_add (HLL_new 4 hash) ''a'')
     = Some [22, 0, 0, 0, 0, 0, 0, 0, 0, 0, 0, 0, 0, 0, 0, 0]" by code_simp
  moreover have "contribution 22 = 1 / 4194304"
    by (simp add: contribution_def estimate_body_def)
  ultimately show ?thesis by simp
qed

text \<open>
  C8, amended. For every sketch state that \<^verbatim>\<open>add\<close> and \<^verbatim>\<open>clear\<close> can reach, the divisor
  of the raw estimate is strictly positive, because it is the sum of the registers'
  contributions and every register adds a strictly positive amount, at most \<open>2\<^sup>0 = 1\<close>.
\<close>

theorem divisor_positive:
  assumes "HLL_wf s" and "HLL_Improved_wf t"
  shows "0 < loop_sum (regs s)
       \<and> loop_sum (regs s) = (\<Sum>r\<leftarrow>regs s. contribution r)
       \<and> (\<forall>r \<in> set (regs s). 0 < contribution r \<and> contribution r \<le> 1)
       \<and> 0 < loop_sum (values_of t)
       \<and> loop_sum (values_of t) = (\<Sum>r\<leftarrow>values_of t. contribution r)
       \<and> (\<forall>r \<in> set (values_of t). 0 < contribution r \<and> contribution r \<le> 1)
       \<and> HLL_estimate s = estimate_final (m s) (loop_sum (regs s), spec_zeroCount (regs s))
       \<and> HLL_Improved_estimate t
           = estimate_final (m t) (loop_sum (values_of t), spec_zeroCount (values_of t))"
proof -
  have rs: "list_all (\<lambda>r. 0 \<le> r \<and> r < 64) (regs s)" using assms(1) by (rule HLL_wf_in_range)
  have rt: "list_all (\<lambda>r. 0 \<le> r \<and> r < 64) (values_of t)"
    unfolding values_of_def by (rule values_in_range)
  have ns: "regs s \<noteq> []" using assms(1) by (auto simp add: HLL_wf_def)
  have nt: "values_of t \<noteq> []" using assms(2) by (auto simp add: HLL_Improved_wf_def values_of_def)
  have cs: "\<forall>r \<in> set (regs s). 0 < contribution r \<and> contribution r \<le> 1"
    using rs contribution_bounds by (auto simp add: list_all_iff)
  have ct: "\<forall>r \<in> set (values_of t). 0 < contribution r \<and> contribution r \<le> 1"
    using rt contribution_bounds by (auto simp add: list_all_iff)
  have es: "HLL_estimate s = estimate_final (m s) (loop_sum (regs s), spec_zeroCount (regs s))"
    using foldl_estimate_body[OF rs, of 0 0]
    by (simp add: HLL_estimate_def loop_sum_def)
  have et: "HLL_Improved_estimate t
           = estimate_final (m t) (loop_sum (values_of t), spec_zeroCount (values_of t))"
    using foldl_estimate_body[OF rt, of 0 0]
    by (simp add: HLL_Improved_estimate_def loop_sum_def foldl_estimate_body_uint values_of_def)
  show ?thesis
    using loop_sum_pos[OF rs ns] loop_sum_pos[OF rt nt] loop_sum_contributions cs ct es et
    by simp
qed

theorem divisor_positive_witness:
  "HLL_wf \<lparr>B = 1, m = 2, regs = [32, 32 :: int], hash_func = hash\<rparr>
   \<and> HLL_Improved_wf \<lparr>B = 1, m = 2, regs = [31, 31 :: 5 word], hash_func = hash\<rparr>
   \<and> loop_sum [32, 32] = 1 / 2 ^ 31
   \<and> 0 < loop_sum [32, 32]
   \<and> loop_sum (values_of \<lparr>B = 1, m = 2, regs = [31, 31 :: 5 word], hash_func = hash\<rparr>) = 1 / 2 ^ 30"
proof -
  have h1: "HLL_wf \<lparr>B = 1, m = 2, regs = [32, 32 :: int], hash_func = hash\<rparr>"
    by (simp add: HLL_wf_def)
  have h2: "HLL_Improved_wf \<lparr>B = 1, m = 2, regs = [31, 31 :: 5 word], hash_func = hash\<rparr>"
    by (simp add: HLL_Improved_wf_def)
  have c: "contribution 32 = 1 / 2 ^ 32" "contribution 31 = 1 / 2 ^ 31"
    by (simp_all add: contribution_eq)
  have v: "values_of \<lparr>B = 1, m = 2, regs = [31, 31 :: 5 word], hash_func = hash\<rparr> = [31, 31]"
    by (simp add: values_of_def)
  from divisor_positive[OF h1 h2, unfolded v]
  have a: "loop_sum [32, 32] = 2 * contribution 32"
    and b: "loop_sum [31, 31] = 2 * contribution 31"
    and p: "0 < loop_sum [32, 32]"
    by simp_all
  have a': "loop_sum [32, 32] = 1 / 2 ^ 31" and b': "loop_sum [31, 31] = 1 / 2 ^ 30"
    unfolding a b by (simp_all add: c)
  show ?thesis using h1 h2 p by (simp only: v a' b' simp_thms)
qed

section \<open>The two stores side by side\<close>

lemma same_values_estimate:
  assumes "same_values s t" "list_all (\<lambda>r. 0 \<le> r \<and> r < 64) (regs s)"
  shows "HLL_estimate s = HLL_Improved_estimate t"
  using assms HLL_estimate_spec[OF assms(2)] HLL_Improved_estimate_spec[of t]
  by (simp add: same_values_def)

lemma same_values_add:
  assumes sv: "same_values s t" and ws: "HLL_wf s" and wt: "HLL_Improved_wf t"
    and b2: "2 \<le> B s"
    and s': "HLL_add s x = Some s'" and t': "HLL_Improved_add t x = Some t'"
  shows "same_values s' t'"
proof -
  define i where "i = index_of (B s) (hash_func s x)"
  define r where "r = rank_of (B s) (hash_func s x)"
  from sv have eq: "B t = B s" "m t = m s" "hash_func t = hash_func s"
    and rg: "regs s = map uint (regs t)"
    by (simp_all add: same_values_def values_of_def)
  from ws have b: "1 \<le> B s" "B s \<le> 32" and len: "length (regs s) = 2 ^ B s"
    by (simp_all add: HLL_wf_def)
  have i: "i < length (regs t)"
    using index_of_less[OF b] len rg unfolding i_def by (metis length_map)
  have r: "1 \<le> r" "r \<le> 31"
    using rank_of_bounds[OF b(2), of "hash_func s x"] b2 by (simp_all add: r_def)
  have old: "regs s ! i = uint (regs t ! i)" using rg i by simp
  have "0 \<le> max (uint (regs t ! i)) r" "max (uint (regs t ! i)) r \<le> 31"
    using r uint5_le[of "regs t ! i"] by simp_all
  then have u: "uint (word_of_int (max (uint (regs t ! i)) r) :: 5 word) = max (uint (regs t ! i)) r"
    by (rule uint_word5)
  have s1: "s' = s\<lparr>regs := (regs s)[i := max (regs s ! i) r]\<rparr>"
    using HLL_add_eq[OF ws, of x] s' by (simp add: i_def r_def)
  have t1: "t' = t\<lparr>regs := (regs t)[i := word_of_int (max (uint (regs t ! i)) r)]\<rparr>"
    using HLL_Improved_add_eq[OF wt, of x] t' r by (simp add: i_def r_def eq)
  show ?thesis
    unfolding s1 t1 using eq rg old u
    by (simp add: same_values_def values_of_def map_update)
qed

lemma same_values_add_all:
  assumes "same_values s t" "HLL_wf s" "HLL_Improved_wf t" "2 \<le> B s"
  shows "\<exists>s' t'. add_all HLL_add s xs = Some s' \<and> add_all HLL_Improved_add t xs = Some t'
           \<and> same_values s' t' \<and> HLL_wf s'"
  using assms
proof (induction xs arbitrary: s t)
  case Nil
  then show ?case by simp
next
  case (Cons x xs)
  obtain s1 where s1: "HLL_add s x = Some s1"
    using HLL_add_eq[OF Cons.prems(2), of x] by blast
  obtain t1 where t1: "HLL_Improved_add t x = Some t1"
    using HLL_Improved_add_eq[OF Cons.prems(3), of x] by blast
  have sv: "same_values s1 t1"
    by (rule same_values_add[OF Cons.prems(1) Cons.prems(2) Cons.prems(3) Cons.prems(4) s1 t1])
  have ws: "HLL_wf s1" using Cons.prems(2) s1 by (rule HLL_add_wf)
  have wt: "HLL_Improved_wf t1" using Cons.prems(3) t1 by (rule HLL_Improved_add_wf)
  have b: "2 \<le> B s1" using HLL_add_frame(1)[OF Cons.prems(2) s1] Cons.prems(4) by simp
  from Cons.IH[OF sv ws wt b] s1 t1 show ?case by simp
qed

lemma same_values_new: "same_values (HLL_new b h) (HLL_Improved_new b h)"
  by (simp add: same_values_def values_of_def HLL_new_def HLL_Improved_new_def)

text \<open>
  C1 as stated fails at precision 1. There the rank of a hash value whose remainder is 0
  is 32; \<^verbatim>\<open>HLL\<close> stores 32 and \<^verbatim>\<open>HLL_Improved\<close> cuts it to 31. The two strings below
  hash (with \<^verbatim>\<open>HashGen::hash\<close>) to \<open>2\<^sup>3\<^sup>1\<close> and to 0, so they fill both registers, and the
  raw estimates come out as \<open>0.7213 * 2\<^sup>3\<^sup>3\<close> and \<open>0.7213 * 2\<^sup>3\<^sup>2\<close>.
\<close>

theorem storage_equivalence_counterexample:
  "hash ''aAgaAXq'' = 2147483648 \<and> hash ''bmgkAEs'' = 0
   \<and> map_option regs (add_all HLL_add (HLL_new 1 hash) [''aAgaAXq'', ''bmgkAEs''])
        = Some [32, 32]
   \<and> map_option regs (add_all HLL_Improved_add (HLL_Improved_new 1 hash) [''aAgaAXq'', ''bmgkAEs''])
        = Some [31, 31]
   \<and> map_option HLL_estimate (add_all HLL_add (HLL_new 1 hash) [''aAgaAXq'', ''bmgkAEs''])
        = Some (0.7213 * 2 ^ 33)
   \<and> map_option HLL_Improved_estimate
        (add_all HLL_Improved_add (HLL_Improved_new 1 hash) [''aAgaAXq'', ''bmgkAEs''])
        = Some (0.7213 * 2 ^ 32)
   \<and> map_option HLL_estimate (add_all HLL_add (HLL_new 1 hash) [''aAgaAXq'', ''bmgkAEs''])
        \<noteq> map_option HLL_Improved_estimate
            (add_all HLL_Improved_add (HLL_Improved_new 1 hash) [''aAgaAXq'', ''bmgkAEs''])"
proof -
  have h: "hash ''aAgaAXq'' = 2147483648" "hash ''bmgkAEs'' = 0" by code_simp+
  have ws: "HLL_wf (HLL_new 1 hash)" by (simp add: HLL_new_wf)
  have wt: "HLL_Improved_wf (HLL_Improved_new 1 hash)" by (simp add: HLL_Improved_new_wf)
  obtain s where s: "add_all HLL_add (HLL_new 1 hash) [''aAgaAXq'', ''bmgkAEs''] = Some s"
    using HLL_add_all_wf[OF ws] by blast
  obtain t where t: "add_all HLL_Improved_add (HLL_Improved_new 1 hash) [''aAgaAXq'', ''bmgkAEs''] = Some t"
    using HLL_Improved_add_all_wf[OF wt] by blast
  have rs0: "map_option regs (add_all HLL_add (HLL_new 1 hash) [''aAgaAXq'', ''bmgkAEs''])
        = Some [32, 32]" by code_simp
  have rt0: "map_option regs (add_all HLL_Improved_add (HLL_Improved_new 1 hash) [''aAgaAXq'', ''bmgkAEs''])
        = Some [31, 31]" by code_simp
  have rs: "regs s = [32, 32]" using rs0 s by simp
  have rt: "regs t = [31, 31]" using rt0 t by simp
  have ms: "m s = 2" using HLL_add_all_frame[OF ws s, of 0] by (simp add: HLL_new_def)
  have mt: "m t = 2" using HLL_Improved_add_all_frame[OF wt t, of 0] by (simp add: HLL_Improved_new_def)
  have Z: "spec_Z [32, 32] = 1 / 2 ^ 31" "spec_Z [31, 31] = 1 / 2 ^ 30"
    by (simp_all add: spec_Z_def powr_minus_divide)
  have z: "spec_zeroCount [32, 32] = 0" "spec_zeroCount [31, 31] = 0"
    by (simp_all add: spec_zeroCount_def)
  have e: "spec_E_raw 2 [32, 32] = 0.7213 * 2 ^ 33" "spec_E_raw 2 [31, 31] = 0.7213 * 2 ^ 32"
    by (simp_all add: spec_E_raw_def Z)
  have es: "HLL_estimate s = 0.7213 * 2 ^ 33"
    using HLL_estimate_spec[of s] by (simp add: rs ms spec_estimate_def z e)
  have et: "HLL_Improved_estimate t = 0.7213 * 2 ^ 32"
    using HLL_Improved_estimate_spec[of t] by (simp add: values_of_def rt mt spec_estimate_def z e)
  have ne: "(0.7213 * 2 ^ 33 :: real) \<noteq> 0.7213 * 2 ^ 32" by simp
  show ?thesis
    unfolding s t using h rs rt es et ne by simp
qed

text \<open>
  C1, amended. For every precision in \<open>[2, 16]\<close>, every hash function and every finite
  sequence of \<^verbatim>\<open>add\<close> calls applied to a fresh \<^verbatim>\<open>HLL\<close> and to a fresh \<^verbatim>\<open>HLL_Improved\<close>, the
  two sketches hold the same register values and their \<^verbatim>\<open>estimate()\<close> calls return the
  same value.
\<close>

theorem storage_equivalence:
  assumes "2 \<le> b" and "b \<le> 16"
  shows "\<exists>s t. add_all HLL_add (HLL_new b h) xs = Some s
             \<and> add_all HLL_Improved_add (HLL_Improved_new b h) xs = Some t
             \<and> regs s = values_of t
             \<and> HLL_estimate s = HLL_Improved_estimate t"
proof -
  have ws: "HLL_wf (HLL_new b h)" using assms by (simp add: HLL_new_wf)
  have wt: "HLL_Improved_wf (HLL_Improved_new b h)" using assms by (simp add: HLL_Improved_new_wf)
  have b: "2 \<le> B (HLL_new b h)" using assms by (simp add: HLL_new_def)
  from same_values_add_all[OF same_values_new ws wt b, of xs] obtain s t where
    st: "add_all HLL_add (HLL_new b h) xs = Some s"
        "add_all HLL_Improved_add (HLL_Improved_new b h) xs = Some t"
        "same_values s t" "HLL_wf s"
    by blast
  from same_values_estimate[OF st(3) HLL_wf_in_range[OF st(4)]] st
  show ?thesis by (auto simp add: same_values_def)
qed

theorem storage_equivalence_witness:
  "(2::nat) \<le> 4 \<and> (4::nat) \<le> 16
   \<and> map_option regs (add_all HLL_add (HLL_new 4 hash) [''a'', ''aAgaAXq'', ''abc''])
        = Some [22, 0, 0, 0, 0, 0, 0, 0, 29, 0, 0, 0, 0, 0, 0, 0]
   \<and> map_option values_of
        (add_all HLL_Improved_add (HLL_Improved_new 4 hash) [''a'', ''aAgaAXq'', ''abc''])
        = Some [22, 0, 0, 0, 0, 0, 0, 0, 29, 0, 0, 0, 0, 0, 0, 0]
   \<and> map_option HLL_estimate (add_all HLL_add (HLL_new 4 hash) [''a'', ''aAgaAXq'', ''abc''])
        = map_option HLL_Improved_estimate
            (add_all HLL_Improved_add (HLL_Improved_new 4 hash) [''a'', ''aAgaAXq'', ''abc''])"
proof -
  have e1: "map_option regs (add_all HLL_add (HLL_new 4 hash) [''a'', ''aAgaAXq'', ''abc''])
        = Some [22, 0, 0, 0, 0, 0, 0, 0, 29, 0, 0, 0, 0, 0, 0, 0]" by code_simp
  have e2: "map_option values_of
        (add_all HLL_Improved_add (HLL_Improved_new 4 hash) [''a'', ''aAgaAXq'', ''abc''])
        = Some [22, 0, 0, 0, 0, 0, 0, 0, 29, 0, 0, 0, 0, 0, 0, 0]" by code_simp
  from storage_equivalence[of 4 hash "[''a'', ''aAgaAXq'', ''abc'']"] obtain s t where
    st: "add_all HLL_add (HLL_new 4 hash) [''a'', ''aAgaAXq'', ''abc''] = Some s"
        "add_all HLL_Improved_add (HLL_Improved_new 4 hash) [''a'', ''aAgaAXq'', ''abc''] = Some t"
        "HLL_estimate s = HLL_Improved_estimate t"
    by auto
  show ?thesis using e1 e2 st(3) unfolding st(1,2) by simp
qed

section \<open>Duplicates\<close>

lemma add_all_append:
  "add_all add s (xs @ ys) = (case add_all add s xs of None \<Rightarrow> None | Some s' \<Rightarrow> add_all add s' ys)"
  by (induction xs arbitrary: s) (simp_all split: option.splits)

lemma HLL_added_is_covered:
  "HLL_wf s \<Longrightarrow> add_all HLL_add s xs = Some s' \<Longrightarrow> x \<in> set xs \<Longrightarrow>
     rank_of (B s) (hash_func s x) \<le> regs s' ! index_of (B s) (hash_func s x)"
proof (induction xs arbitrary: s)
  case Nil
  then show ?case by simp
next
  case (Cons y ys)
  from Cons.prems(2) obtain s1 where s1: "HLL_add s y = Some s1" "add_all HLL_add s1 ys = Some s'"
    by (auto split: option.splits)
  have wf1: "HLL_wf s1" using Cons.prems(1) s1(1) by (rule HLL_add_wf)
  note fr = HLL_add_frame[OF Cons.prems(1) s1(1)]
  show ?case
  proof (cases "x = y")
    case True
    have "rank_of (B s) (hash_func s x) \<le> regs s1 ! index_of (B s) (hash_func s x)"
      using fr(5) True by simp
    also have "\<dots> \<le> regs s' ! index_of (B s) (hash_func s x)"
      using HLL_add_all_frame[OF wf1 s1(2)] by simp
    finally show ?thesis .
  next
    case False
    then have "x \<in> set ys" using Cons.prems(3) by simp
    from Cons.IH[OF wf1 s1(2) this] fr(1,3) show ?thesis by simp
  qed
qed

lemma HLL_Improved_added_is_covered:
  "HLL_Improved_wf s \<Longrightarrow> add_all HLL_Improved_add s xs = Some s' \<Longrightarrow> x \<in> set xs \<Longrightarrow>
     min (rank_of (B s) (hash_func s x)) 31 \<le> uint (regs s' ! index_of (B s) (hash_func s x))"
proof (induction xs arbitrary: s)
  case Nil
  then show ?case by simp
next
  case (Cons y ys)
  from Cons.prems(2) obtain s1 where
    s1: "HLL_Improved_add s y = Some s1" "add_all HLL_Improved_add s1 ys = Some s'"
    by (auto split: option.splits)
  have wf1: "HLL_Improved_wf s1" using Cons.prems(1) s1(1) by (rule HLL_Improved_add_wf)
  note fr = HLL_Improved_add_frame[OF Cons.prems(1) s1(1)]
  show ?case
  proof (cases "x = y")
    case True
    have "min (rank_of (B s) (hash_func s x)) 31 \<le> uint (regs s1 ! index_of (B s) (hash_func s x))"
      using fr(5) True by simp
    also have "\<dots> \<le> uint (regs s' ! index_of (B s) (hash_func s x))"
      using HLL_Improved_add_all_frame[OF wf1 s1(2)] by simp
    finally show ?thesis .
  next
    case False
    then have "x \<in> set ys" using Cons.prems(3) by simp
    from Cons.IH[OF wf1 s1(2) this] fr(1,3) show ?thesis by simp
  qed
qed

text \<open>
  C5. In a sketch state reached by a sequence of \<^verbatim>\<open>add\<close> calls, \<^verbatim>\<open>add(item)\<close> for an item
  of that sequence leaves the sketch, every register included, as it is, and so
  \<^verbatim>\<open>estimate()\<close> returns the same value after it as before. This holds for both sketches.
\<close>

theorem readding_changes_nothing:
  assumes "HLL_wf s" and "add_all HLL_add s xs = Some s'"
    and "HLL_Improved_wf t" and "add_all HLL_Improved_add t xs = Some t'"
    and "x \<in> set xs"
  shows "HLL_add s' x = Some s'
       \<and> map_option regs (HLL_add s' x) = Some (regs s')
       \<and> map_option HLL_estimate (HLL_add s' x) = Some (HLL_estimate s')
       \<and> HLL_Improved_add t' x = Some t'
       \<and> map_option regs (HLL_Improved_add t' x) = Some (regs t')
       \<and> map_option HLL_Improved_estimate (HLL_Improved_add t' x) = Some (HLL_Improved_estimate t')"
proof -
  obtain s2 where s2: "add_all HLL_add s xs = Some s2 \<and> HLL_wf s2"
    using HLL_add_all_wf[OF assms(1), of xs] by blast
  then have ws: "HLL_wf s'" using assms(2) by simp
  obtain t2 where t2: "add_all HLL_Improved_add t xs = Some t2 \<and> HLL_Improved_wf t2"
    using HLL_Improved_add_all_wf[OF assms(3), of xs] by blast
  then have wt: "HLL_Improved_wf t'" using assms(4) by simp
  have fs: "B s' = B s" "hash_func s' = hash_func s"
    using HLL_add_all_frame[OF assms(1,2), of 0] by simp_all
  have ft: "B t' = B t" "hash_func t' = hash_func t"
    using HLL_Improved_add_all_frame[OF assms(3,4), of 0] by simp_all
  have "max (regs s' ! index_of (B s') (hash_func s' x)) (rank_of (B s') (hash_func s' x))
      = regs s' ! index_of (B s') (hash_func s' x)"
    using HLL_added_is_covered[OF assms(1,2,5)] by (simp add: fs)
  then have 1: "HLL_add s' x = Some s'"
    using HLL_add_eq[OF ws, of x] by simp
  have "max (uint (regs t' ! index_of (B t') (hash_func t' x)))
            (min (rank_of (B t') (hash_func t' x)) 31)
      = uint (regs t' ! index_of (B t') (hash_func t' x))"
    using HLL_Improved_added_is_covered[OF assms(3,4,5)] by (simp add: ft)
  then have 2: "HLL_Improved_add t' x = Some t'"
    using HLL_Improved_add_eq[OF wt, of x] by simp
  show ?thesis by (simp add: 1 2)
qed

theorem readding_changes_nothing_witness:
  "HLL_wf (HLL_new 4 hash) \<and> HLL_Improved_wf (HLL_Improved_new 4 hash)
   \<and> ''a'' \<in> set [''a'', ''aAgaAXq'', ''abc'']
   \<and> map_option regs (add_all HLL_add (HLL_new 4 hash) [''a'', ''aAgaAXq'', ''abc''])
        = Some [22, 0, 0, 0, 0, 0, 0, 0, 29, 0, 0, 0, 0, 0, 0, 0]
   \<and> map_option regs (add_all HLL_add (HLL_new 4 hash) ([''a'', ''aAgaAXq'', ''abc''] @ [''a'']))
        = Some [22, 0, 0, 0, 0, 0, 0, 0, 29, 0, 0, 0, 0, 0, 0, 0]
   \<and> map_option regs
        (add_all HLL_Improved_add (HLL_Improved_new 4 hash) ([''a'', ''aAgaAXq'', ''abc''] @ [''a'']))
        = Some [22, 0, 0, 0, 0, 0, 0, 0, 29, 0, 0, 0, 0, 0, 0, 0]
   \<and> map_option HLL_estimate
        (add_all HLL_add (HLL_new 4 hash) ([''a'', ''aAgaAXq'', ''abc''] @ [''a'']))
        = map_option HLL_estimate (add_all HLL_add (HLL_new 4 hash) [''a'', ''aAgaAXq'', ''abc''])"
proof -
  have h1: "HLL_wf (HLL_new 4 hash)" by (simp add: HLL_new_wf)
  have h3: "HLL_Improved_wf (HLL_Improved_new 4 hash)" by (simp add: HLL_Improved_new_wf)
  have h5: "''a'' \<in> set [''a'', ''aAgaAXq'', ''abc'']" by simp
  obtain s' where h2: "add_all HLL_add (HLL_new 4 hash) [''a'', ''aAgaAXq'', ''abc''] = Some s'"
    using HLL_add_all_wf[OF h1] by blast
  obtain t' where h4: "add_all HLL_Improved_add (HLL_Improved_new 4 hash) [''a'', ''aAgaAXq'', ''abc''] = Some t'"
    using HLL_Improved_add_all_wf[OF h3] by blast
  have e1: "map_option regs (add_all HLL_add (HLL_new 4 hash) [''a'', ''aAgaAXq'', ''abc''])
        = Some [22, 0, 0, 0, 0, 0, 0, 0, 29, 0, 0, 0, 0, 0, 0, 0]" by code_simp
  have e2: "map_option regs (add_all HLL_Improved_add (HLL_Improved_new 4 hash) [''a'', ''aAgaAXq'', ''abc''])
        = Some [22, 0, 0, 0, 0, 0, 0, 0, 29, 0, 0, 0, 0, 0, 0, 0]" by code_simp
  from readding_changes_nothing[OF h1 h2 h3 h4 h5]
  have a: "HLL_add s' ''a'' = Some s'" and b: "HLL_Improved_add t' ''a'' = Some t'" by simp_all
  have a': "add_all HLL_add (HLL_new 4 hash) ([''a'', ''aAgaAXq'', ''abc''] @ [''a'']) = Some s'"
    unfolding add_all_append h2 by (simp add: a)
  have b': "add_all HLL_Improved_add (HLL_Improved_new 4 hash) ([''a'', ''aAgaAXq'', ''abc''] @ [''a'']) = Some t'"
    unfolding add_all_append h4 by (simp add: b)
  show ?thesis
    using h1 h3 e1 e2 unfolding a' b' h2 h4 by simp
qed

section \<open>What one add writes\<close>

lemma HLL_add_cases:
  assumes "HLL_wf s"
  shows "regs s ! index_of (B s) (hash_func s x) < rank_of (B s) (hash_func s x) \<Longrightarrow>
           HLL_add s x = Some (s\<lparr>regs := (regs s)[index_of (B s) (hash_func s x) :=
                                      rank_of (B s) (hash_func s x)]\<rparr>)"
    and "rank_of (B s) (hash_func s x) \<le> regs s ! index_of (B s) (hash_func s x) \<Longrightarrow>
           HLL_add s x = Some s"
proof -
  note eq = HLL_add_eq[OF assms, of x]
  show "HLL_add s x = Some (s\<lparr>regs := (regs s)[index_of (B s) (hash_func s x) :=
                                      rank_of (B s) (hash_func s x)]\<rparr>)"
    if "regs s ! index_of (B s) (hash_func s x) < rank_of (B s) (hash_func s x)"
  proof -
    have "max (regs s ! index_of (B s) (hash_func s x)) (rank_of (B s) (hash_func s x))
        = rank_of (B s) (hash_func s x)" using that by simp
    then show ?thesis using eq by simp
  qed
  show "HLL_add s x = Some s"
    if "rank_of (B s) (hash_func s x) \<le> regs s ! index_of (B s) (hash_func s x)"
  proof -
    have "max (regs s ! index_of (B s) (hash_func s x)) (rank_of (B s) (hash_func s x))
        = regs s ! index_of (B s) (hash_func s x)" using that by simp
    then show ?thesis using eq by simp
  qed
qed

lemma HLL_Improved_add_cases:
  assumes "HLL_Improved_wf t"
  shows "uint (regs t ! index_of (B t) (hash_func t x)) < min (rank_of (B t) (hash_func t x)) 31 \<Longrightarrow>
           HLL_Improved_add t x = Some (t\<lparr>regs := (regs t)[index_of (B t) (hash_func t x) :=
                                      word_of_int (min (rank_of (B t) (hash_func t x)) 31)]\<rparr>)"
    and "min (rank_of (B t) (hash_func t x)) 31 \<le> uint (regs t ! index_of (B t) (hash_func t x)) \<Longrightarrow>
           HLL_Improved_add t x = Some t"
proof -
  note eq = HLL_Improved_add_eq[OF assms, of x]
  show "HLL_Improved_add t x = Some (t\<lparr>regs := (regs t)[index_of (B t) (hash_func t x) :=
                                      word_of_int (min (rank_of (B t) (hash_func t x)) 31)]\<rparr>)"
    if "uint (regs t ! index_of (B t) (hash_func t x)) < min (rank_of (B t) (hash_func t x)) 31"
  proof -
    have "max (uint (regs t ! index_of (B t) (hash_func t x))) (min (rank_of (B t) (hash_func t x)) 31)
        = min (rank_of (B t) (hash_func t x)) 31" using that by simp
    then show ?thesis using eq by simp
  qed
  show "HLL_Improved_add t x = Some t"
    if "min (rank_of (B t) (hash_func t x)) 31 \<le> uint (regs t ! index_of (B t) (hash_func t x))"
  proof -
    have "max (uint (regs t ! index_of (B t) (hash_func t x))) (min (rank_of (B t) (hash_func t x)) 31)
        = uint (regs t ! index_of (B t) (hash_func t x))" using that by simp
    then show ?thesis using eq by simp
  qed
qed

text \<open>
  C9 as stated has \<^verbatim>\<open>add\<close> mutate exactly one register. The assignment in \<^verbatim>\<open>add\<close> is
  guarded by \<^verbatim>\<open>if(zeros > regs[idx])\<close>, and when the guard is false no register is
  written: on a fresh sketch of precision 4 the first \<^verbatim>\<open>add("a")\<close> sets register 0 to
  22, and a second \<^verbatim>\<open>add("a")\<close> leaves the sketch exactly as it found it, in both
  classes.
\<close>

theorem add_writes_no_register_counterexample:
  "map_option regs (add_all HLL_add (HLL_new 4 hash) [''a''])
     = Some [22, 0, 0, 0, 0, 0, 0, 0, 0, 0, 0, 0, 0, 0, 0, 0]
   \<and> map_option regs (add_all HLL_add (HLL_new 4 hash) [''a'', ''a''])
     = Some [22, 0, 0, 0, 0, 0, 0, 0, 0, 0, 0, 0, 0, 0, 0, 0]
   \<and> add_all HLL_add (HLL_new 4 hash) [''a'', ''a''] = add_all HLL_add (HLL_new 4 hash) [''a'']
   \<and> map_option regs (add_all HLL_Improved_add (HLL_Improved_new 4 hash) [''a''])
     = Some [22, 0, 0, 0, 0, 0, 0, 0, 0, 0, 0, 0, 0, 0, 0, 0]
   \<and> map_option regs (add_all HLL_Improved_add (HLL_Improved_new 4 hash) [''a'', ''a''])
     = Some [22, 0, 0, 0, 0, 0, 0, 0, 0, 0, 0, 0, 0, 0, 0, 0]
   \<and> add_all HLL_Improved_add (HLL_Improved_new 4 hash) [''a'', ''a'']
     = add_all HLL_Improved_add (HLL_Improved_new 4 hash) [''a'']"
proof -
  have ws: "HLL_wf (HLL_new 4 hash)" by (simp add: HLL_new_wf)
  have wt: "HLL_Improved_wf (HLL_Improved_new 4 hash)" by (simp add: HLL_Improved_new_wf)
  have e1: "map_option regs (add_all HLL_add (HLL_new 4 hash) [''a''])
     = Some [22, 0, 0, 0, 0, 0, 0, 0, 0, 0, 0, 0, 0, 0, 0, 0]" by code_simp
  have e2: "map_option regs (add_all HLL_add (HLL_new 4 hash) [''a'', ''a''])
     = Some [22, 0, 0, 0, 0, 0, 0, 0, 0, 0, 0, 0, 0, 0, 0, 0]" by code_simp
  have e3: "map_option regs (add_all HLL_Improved_add (HLL_Improved_new 4 hash) [''a''])
     = Some [22, 0, 0, 0, 0, 0, 0, 0, 0, 0, 0, 0, 0, 0, 0, 0]" by code_simp
  have e4: "map_option regs (add_all HLL_Improved_add (HLL_Improved_new 4 hash) [''a'', ''a''])
     = Some [22, 0, 0, 0, 0, 0, 0, 0, 0, 0, 0, 0, 0, 0, 0, 0]" by code_simp
  obtain s1 where s1: "add_all HLL_add (HLL_new 4 hash) [''a''] = Some s1" "HLL_wf s1"
    using HLL_add_all_wf[OF ws, of "[''a'']"] by blast
  obtain t1 where t1: "add_all HLL_Improved_add (HLL_Improved_new 4 hash) [''a''] = Some t1"
      "HLL_Improved_wf t1"
    using HLL_Improved_add_all_wf[OF wt, of "[''a'']"] by blast
  have fs: "B s1 = B (HLL_new 4 hash)" "hash_func s1 = hash_func (HLL_new 4 hash)"
    using HLL_add_all_frame[OF ws s1(1), of 0] by simp_all
  have ft: "B t1 = B (HLL_Improved_new 4 hash)" "hash_func t1 = hash_func (HLL_Improved_new 4 hash)"
    using HLL_Improved_add_all_frame[OF wt t1(1), of 0] by simp_all
  have ns: "HLL_add (HLL_new 4 hash) ''a'' = Some s1"
    using s1(1) by (simp split: option.splits)
  have rs: "HLL_add s1 ''a'' = Some s1"
    using HLL_added_is_covered[OF ws s1(1), of "''a''"] HLL_add_cases(2)[OF s1(2), of "''a''"]
    by (simp add: fs)
  have a: "add_all HLL_add (HLL_new 4 hash) [''a'', ''a''] = add_all HLL_add (HLL_new 4 hash) [''a'']"
    by (simp add: ns rs)
  have nt: "HLL_Improved_add (HLL_Improved_new 4 hash) ''a'' = Some t1"
    using t1(1) by (simp split: option.splits)
  have rt: "HLL_Improved_add t1 ''a'' = Some t1"
    using HLL_Improved_added_is_covered[OF wt t1(1), of "''a''"]
      HLL_Improved_add_cases(2)[OF t1(2), of "''a''"]
    by (simp add: ft)
  have b: "add_all HLL_Improved_add (HLL_Improved_new 4 hash) [''a'', ''a'']
     = add_all HLL_Improved_add (HLL_Improved_new 4 hash) [''a'']"
    by (simp add: nt rt)
  show ?thesis using e1 e2 e3 e4 a b by (intro conjI)
qed

text \<open>
  C9, amended. \<^verbatim>\<open>add(item)\<close> has a defined result for every string and every hash
  function. It mutates at most one register, the one at the computed index: that register
  is set to the rank (cut at 31 in the compact sketch), a value different from the one it
  held, when the rank exceeds it, and otherwise nothing is written and the sketch is
  returned as it was. The precision, \<^verbatim>\<open>m\<close>, the hash function, the number of registers
  and every other register are as before.
\<close>

theorem add_changes_at_most_one_register:
  assumes "HLL_wf s" and "HLL_Improved_wf t"
  shows "HLL_add s x = Some (s\<lparr>regs := (regs s)[index_of (B s) (hash_func s x) :=
             max (regs s ! index_of (B s) (hash_func s x)) (rank_of (B s) (hash_func s x))]\<rparr>)
       \<and> index_of (B s) (hash_func s x) = unat (drop_bit (32 - B s) (hash_func s x))
       \<and> index_of (B s) (hash_func s x) < length (regs s)
       \<and> (regs s ! index_of (B s) (hash_func s x) < rank_of (B s) (hash_func s x) \<longrightarrow>
            HLL_add s x = Some (s\<lparr>regs := (regs s)[index_of (B s) (hash_func s x) :=
                                       rank_of (B s) (hash_func s x)]\<rparr>)
            \<and> (regs s)[index_of (B s) (hash_func s x) := rank_of (B s) (hash_func s x)]
                  ! index_of (B s) (hash_func s x)
                \<noteq> regs s ! index_of (B s) (hash_func s x))
       \<and> (rank_of (B s) (hash_func s x) \<le> regs s ! index_of (B s) (hash_func s x) \<longrightarrow>
            HLL_add s x = Some s)
       \<and> (\<exists>s'. HLL_add s x = Some s'
            \<and> B s' = B s \<and> m s' = m s \<and> hash_func s' = hash_func s
            \<and> length (regs s') = length (regs s)
            \<and> (\<forall>j < length (regs s). j \<noteq> index_of (B s) (hash_func s x)
                  \<longrightarrow> regs s' ! j = regs s ! j))
       \<and> HLL_Improved_add t x = Some (t\<lparr>regs := (regs t)[index_of (B t) (hash_func t x) :=
             word_of_int (max (uint (regs t ! index_of (B t) (hash_func t x)))
                              (min (rank_of (B t) (hash_func t x)) 31))]\<rparr>)
       \<and> index_of (B t) (hash_func t x) < length (regs t)
       \<and> (uint (regs t ! index_of (B t) (hash_func t x)) < min (rank_of (B t) (hash_func t x)) 31 \<longrightarrow>
            HLL_Improved_add t x = Some (t\<lparr>regs := (regs t)[index_of (B t) (hash_func t x) :=
                                       word_of_int (min (rank_of (B t) (hash_func t x)) 31)]\<rparr>)
            \<and> uint ((regs t)[index_of (B t) (hash_func t x) :=
                              word_of_int (min (rank_of (B t) (hash_func t x)) 31)]
                  ! index_of (B t) (hash_func t x))
                \<noteq> uint (regs t ! index_of (B t) (hash_func t x)))
       \<and> (min (rank_of (B t) (hash_func t x)) 31 \<le> uint (regs t ! index_of (B t) (hash_func t x)) \<longrightarrow>
            HLL_Improved_add t x = Some t)
       \<and> (\<exists>t'. HLL_Improved_add t x = Some t'
            \<and> B t' = B t \<and> m t' = m t \<and> hash_func t' = hash_func t
            \<and> length (regs t') = length (regs t)
            \<and> (\<forall>j < length (regs t). j \<noteq> index_of (B t) (hash_func t x)
                  \<longrightarrow> regs t' ! j = regs t ! j))"
proof -
  obtain s1 where s1: "HLL_add s x = Some s1"
    using HLL_add_eq[OF assms(1), of x] by blast
  obtain t1 where t1: "HLL_Improved_add t x = Some t1"
    using HLL_Improved_add_eq[OF assms(2), of x] by blast
  have bt: "B t \<le> 32" using assms(2) by (simp add: HLL_Improved_wf_def)
  have ixs: "index_of (B s) (hash_func s x) < length (regs s)"
    using assms(1) index_of_less[of "B s"] by (simp add: HLL_wf_def)
  have ixt: "index_of (B t) (hash_func t x) < length (regs t)"
    using assms(2) index_of_less[of "B t"] by (simp add: HLL_Improved_wf_def)
  have c1: "regs s ! index_of (B s) (hash_func s x) < rank_of (B s) (hash_func s x) \<longrightarrow>
            HLL_add s x = Some (s\<lparr>regs := (regs s)[index_of (B s) (hash_func s x) :=
                                       rank_of (B s) (hash_func s x)]\<rparr>)
            \<and> (regs s)[index_of (B s) (hash_func s x) := rank_of (B s) (hash_func s x)]
                  ! index_of (B s) (hash_func s x)
                \<noteq> regs s ! index_of (B s) (hash_func s x)"
    using HLL_add_cases(1)[OF assms(1), of x] ixs by simp
  have c2: "rank_of (B s) (hash_func s x) \<le> regs s ! index_of (B s) (hash_func s x) \<longrightarrow>
            HLL_add s x = Some s"
    using HLL_add_cases(2)[OF assms(1), of x] by simp
  have fs: "\<exists>s'. HLL_add s x = Some s'
            \<and> B s' = B s \<and> m s' = m s \<and> hash_func s' = hash_func s
            \<and> length (regs s') = length (regs s)
            \<and> (\<forall>j < length (regs s). j \<noteq> index_of (B s) (hash_func s x)
                  \<longrightarrow> regs s' ! j = regs s ! j)"
    using s1 HLL_add_frame(1-4,6)[OF assms(1) s1] by simp
  have rng: "0 \<le> min (rank_of (B t) (hash_func t x)) 31" "min (rank_of (B t) (hash_func t x)) 31 \<le> 31"
    using rank_of_bounds[OF bt, of "hash_func t x"] by simp_all
  have u: "uint (word_of_int (min (rank_of (B t) (hash_func t x)) 31) :: 5 word)
         = min (rank_of (B t) (hash_func t x)) 31"
    using rng by (rule uint_word5)
  have d1: "uint (regs t ! index_of (B t) (hash_func t x)) < min (rank_of (B t) (hash_func t x)) 31 \<longrightarrow>
            HLL_Improved_add t x = Some (t\<lparr>regs := (regs t)[index_of (B t) (hash_func t x) :=
                                       word_of_int (min (rank_of (B t) (hash_func t x)) 31)]\<rparr>)
            \<and> uint ((regs t)[index_of (B t) (hash_func t x) :=
                              word_of_int (min (rank_of (B t) (hash_func t x)) 31)]
                  ! index_of (B t) (hash_func t x))
                \<noteq> uint (regs t ! index_of (B t) (hash_func t x))"
  proof
    assume lt: "uint (regs t ! index_of (B t) (hash_func t x)) < min (rank_of (B t) (hash_func t x)) 31"
    have "uint ((regs t)[index_of (B t) (hash_func t x) :=
                              word_of_int (min (rank_of (B t) (hash_func t x)) 31)]
                  ! index_of (B t) (hash_func t x))
          = min (rank_of (B t) (hash_func t x)) 31"
      using ixt u by simp
    then have "uint ((regs t)[index_of (B t) (hash_func t x) :=
                              word_of_int (min (rank_of (B t) (hash_func t x)) 31)]
                  ! index_of (B t) (hash_func t x))
                \<noteq> uint (regs t ! index_of (B t) (hash_func t x))"
      using lt by linarith
    then show "HLL_Improved_add t x = Some (t\<lparr>regs := (regs t)[index_of (B t) (hash_func t x) :=
                                       word_of_int (min (rank_of (B t) (hash_func t x)) 31)]\<rparr>)
            \<and> uint ((regs t)[index_of (B t) (hash_func t x) :=
                              word_of_int (min (rank_of (B t) (hash_func t x)) 31)]
                  ! index_of (B t) (hash_func t x))
                \<noteq> uint (regs t ! index_of (B t) (hash_func t x))"
      using HLL_Improved_add_cases(1)[OF assms(2) lt] by (intro conjI)
  qed
  have d2: "min (rank_of (B t) (hash_func t x)) 31 \<le> uint (regs t ! index_of (B t) (hash_func t x)) \<longrightarrow>
            HLL_Improved_add t x = Some t"
    using HLL_Improved_add_cases(2)[OF assms(2), of x] by simp
  have ft: "\<exists>t'. HLL_Improved_add t x = Some t'
            \<and> B t' = B t \<and> m t' = m t \<and> hash_func t' = hash_func t
            \<and> length (regs t') = length (regs t)
            \<and> (\<forall>j < length (regs t). j \<noteq> index_of (B t) (hash_func t x)
                  \<longrightarrow> regs t' ! j = regs t ! j)"
    using t1 HLL_Improved_add_frame(1-4,6)[OF assms(2) t1] by simp
  have ix: "index_of (B s) (hash_func s x) = unat (drop_bit (32 - B s) (hash_func s x))"
    by (simp only: index_of_def)
  from HLL_add_eq[OF assms(1), of x] ix ixs c1 c2 fs
    HLL_Improved_add_eq[OF assms(2), of x] ixt d1 d2 ft
  show ?thesis by (intro conjI)
qed

theorem add_changes_at_most_one_register_witness:
  "HLL_wf (HLL_new 4 hash) \<and> HLL_Improved_wf (HLL_Improved_new 4 hash)
   \<and> index_of 4 (hash ''aAgaAXq'') = 8 \<and> rank_of 4 (hash ''aAgaAXq'') = 29
   \<and> HLL_add (HLL_new 4 hash) ''aAgaAXq''
        = Some ((HLL_new 4 hash)\<lparr>regs := (regs (HLL_new 4 hash))[8 := 29]\<rparr>)
   \<and> HLL_Improved_add (HLL_Improved_new 4 hash) ''aAgaAXq''
        = Some ((HLL_Improved_new 4 hash)\<lparr>regs := (regs (HLL_Improved_new 4 hash))[8 := 29]\<rparr>)
   \<and> map_option regs (HLL_add (HLL_new 4 hash) ''aAgaAXq'')
        = Some [0, 0, 0, 0, 0, 0, 0, 0, 29, 0, 0, 0, 0, 0, 0, 0]
   \<and> map_option regs (HLL_Improved_add (HLL_Improved_new 4 hash) ''aAgaAXq'')
        = Some [0, 0, 0, 0, 0, 0, 0, 0, 29, 0, 0, 0, 0, 0, 0, 0]"
proof -
  have h1: "HLL_wf (HLL_new 4 hash)" by (simp add: HLL_new_wf)
  have h2: "HLL_Improved_wf (HLL_Improved_new 4 hash)" by (simp add: HLL_Improved_new_wf)
  have sel: "B (HLL_new 4 hash) = 4" "hash_func (HLL_new 4 hash) = hash"
    "B (HLL_Improved_new 4 hash) = 4" "hash_func (HLL_Improved_new 4 hash) = hash"
    by (simp_all add: HLL_new_def HLL_Improved_new_def)
  have old: "regs (HLL_new 4 hash) ! 8 = 0" "regs (HLL_Improved_new 4 hash) ! 8 = 0"
    by (simp_all add: HLL_new_def HLL_Improved_new_def)
  have e0: "index_of 4 (hash ''aAgaAXq'') = 8" by code_simp
  have e1: "rank_of 4 (hash ''aAgaAXq'') = 29" by code_simp
  have e2: "map_option regs (HLL_add (HLL_new 4 hash) ''aAgaAXq'')
        = Some [0, 0, 0, 0, 0, 0, 0, 0, 29, 0, 0, 0, 0, 0, 0, 0]" by code_simp
  have e3: "map_option regs (HLL_Improved_add (HLL_Improved_new 4 hash) ''aAgaAXq'')
        = Some [0, 0, 0, 0, 0, 0, 0, 0, 29, 0, 0, 0, 0, 0, 0, 0]" by code_simp
  note t = add_changes_at_most_one_register[OF h1 h2, of "''aAgaAXq''", unfolded sel e0 e1 old]
  from t have a: "HLL_add (HLL_new 4 hash) ''aAgaAXq''
        = Some ((HLL_new 4 hash)\<lparr>regs := (regs (HLL_new 4 hash))[8 := 29]\<rparr>)"
    by simp
  from t have b: "HLL_Improved_add (HLL_Improved_new 4 hash) ''aAgaAXq''
        = Some ((HLL_Improved_new 4 hash)\<lparr>regs := (regs (HLL_Improved_new 4 hash))[8 := 29]\<rparr>)"
    by simp
  from h1 h2 e0 e1 a b e2 e3 show ?thesis by (intro conjI)
qed

section \<open>estimate as an observer\<close>

lemma HLL_estimate_loop:
  "k \<le> length (regs s) \<Longrightarrow>
     foldl HLL_estimate_iter \<lparr>self = s, locals = acc\<rparr> [0..<k]
       = \<lparr>self = s, locals = foldl estimate_body acc (take k (regs s))\<rparr>"
proof (induction k)
  case 0
  then show ?case by simp
next
  case (Suc k)
  then have k: "k < length (regs s)" by simp
  have "foldl HLL_estimate_iter \<lparr>self = s, locals = acc\<rparr> [0..<Suc k]
      = HLL_estimate_iter (foldl HLL_estimate_iter \<lparr>self = s, locals = acc\<rparr> [0..<k]) k"
    by simp
  also have "\<dots> = HLL_estimate_iter \<lparr>self = s, locals = foldl estimate_body acc (take k (regs s))\<rparr> k"
    using Suc.IH k by simp
  also have "\<dots> = \<lparr>self = s, locals = estimate_body (foldl estimate_body acc (take k (regs s))) (regs s ! k)\<rparr>"
    by (simp add: HLL_estimate_iter_def)
  also have "\<dots> = \<lparr>self = s, locals = foldl estimate_body acc (take (Suc k) (regs s))\<rparr>"
    using k by (simp add: take_Suc_conv_app_nth)
  finally show ?case .
qed

lemma HLL_Improved_estimate_loop:
  "k \<le> length (regs s) \<Longrightarrow>
     foldl HLL_Improved_estimate_iter \<lparr>self = s, locals = acc\<rparr> [0..<k]
       = \<lparr>self = s, locals = foldl (\<lambda>a r. estimate_body a (uint r)) acc (take k (regs s))\<rparr>"
proof (induction k)
  case 0
  then show ?case by simp
next
  case (Suc k)
  then have k: "k < length (regs s)" by simp
  have "foldl HLL_Improved_estimate_iter \<lparr>self = s, locals = acc\<rparr> [0..<Suc k]
      = HLL_Improved_estimate_iter
          (foldl HLL_Improved_estimate_iter \<lparr>self = s, locals = acc\<rparr> [0..<k]) k"
    by simp
  also have "\<dots> = HLL_Improved_estimate_iter
      \<lparr>self = s, locals = foldl (\<lambda>a r. estimate_body a (uint r)) acc (take k (regs s))\<rparr> k"
    using Suc.IH k by simp
  also have "\<dots> = \<lparr>self = s, locals = estimate_body
      (foldl (\<lambda>a r. estimate_body a (uint r)) acc (take k (regs s))) (uint (regs s ! k))\<rparr>"
    by (simp add: HLL_Improved_estimate_iter_def)
  also have "\<dots> = \<lparr>self = s,
      locals = foldl (\<lambda>a r. estimate_body a (uint r)) acc (take (Suc k) (regs s))\<rparr>"
    using k by (simp add: take_Suc_conv_app_nth)
  finally show ?case .
qed

lemma HLL_estimate_call_eq: "HLL_estimate_call s = (HLL_estimate s, s)"
  using HLL_estimate_loop[of "length (regs s)" s "(0, 0)"]
  by (simp add: HLL_estimate_call_def HLL_estimate_def)

lemma HLL_Improved_estimate_call_eq:
  "HLL_Improved_estimate_call s = (HLL_Improved_estimate s, s)"
  using HLL_Improved_estimate_loop[of "length (regs s)" s "(0, 0)"]
  by (simp add: HLL_Improved_estimate_call_def HLL_Improved_estimate_def)

lemma calls_state:
  assumes "\<And>u. snd (est u) = u"
  shows "map_option fst (calls add est s cs) = add_all add s (adds_of cs)"
  using assms
proof (induction add est s cs rule: calls.induct)
  case (1 add est s)
  then show ?case by simp
next
  case (2 add est s x cs)
  then show ?case by (cases "add s x") simp_all
next
  case (3 add est s cs)
  obtain v where v: "est s = (v, s)"
    using "3.prems"[of s] by (metis prod.collapse)
  from "3.IH"[OF v[symmetric] "3.prems"] v
  show ?case by (cases "calls add est s cs") auto
qed

lemma calls_then_estimate:
  assumes "\<And>u. snd (est u) = u"
  shows "calls add est s (cs @ [Estimate]) =
     (case calls add est s cs of None \<Rightarrow> None
      | Some (s', out) \<Rightarrow> Some (s', out @ [fst (est s')]))"
  using assms
proof (induction add est s cs rule: calls.induct)
  case (1 add est s)
  obtain v where v: "est s = (v, s)"
    using "1.prems"[of s] by (metis prod.collapse)
  then show ?case by simp
next
  case (2 add est s x cs)
  then show ?case by (cases "add s x") simp_all
next
  case (3 add est s cs)
  obtain v where v: "est s = (v, s)"
    using "3.prems"[of s] by (metis prod.collapse)
  from "3.IH"[OF v[symmetric] "3.prems"] v
  show ?case by (cases "calls add est s cs") auto
qed

lemma calls_last_estimate:
  assumes "\<And>u. snd (est u) = u"
  shows "map_option (\<lambda>(s', out). last out) (calls add est s (cs @ [Estimate]))
     = map_option (\<lambda>s'. fst (est s')) (add_all add s (adds_of cs))"
proof (cases "calls add est s cs")
  case None
  then show ?thesis
    using calls_state[OF assms, of add s cs] by (simp add: calls_then_estimate[OF assms])
next
  case (Some p)
  then have "add_all add s (adds_of cs) = Some (fst p)"
    using calls_state[OF assms, of add s cs] by simp
  then show ?thesis using Some by (cases p) (simp add: calls_then_estimate[OF assms])
qed

text \<open>
  C10. Run statement by statement on the object, the body of \<^verbatim>\<open>estimate()\<close> returns the
  number that the members determine and leaves the object as it found it, in both
  classes. So two calls in a row return the same value; in any sequence of \<^verbatim>\<open>add\<close> and
  \<^verbatim>\<open>estimate\<close> calls the final sketch is the one the \<^verbatim>\<open>add\<close> calls alone produce; and an
  \<^verbatim>\<open>estimate()\<close> after such a sequence returns what it returns after the \<^verbatim>\<open>add\<close> calls
  alone.
\<close>

theorem estimate_is_observer:
  "HLL_estimate_call s = (HLL_estimate s, s)
   \<and> calls HLL_add HLL_estimate_call s [Estimate, Estimate]
        = Some (s, [HLL_estimate s, HLL_estimate s])
   \<and> map_option fst (calls HLL_add HLL_estimate_call s cs) = add_all HLL_add s (adds_of cs)
   \<and> map_option (\<lambda>(s', out). last out) (calls HLL_add HLL_estimate_call s (cs @ [Estimate]))
        = map_option HLL_estimate (add_all HLL_add s (adds_of cs))
   \<and> HLL_Improved_estimate_call t = (HLL_Improved_estimate t, t)
   \<and> calls HLL_Improved_add HLL_Improved_estimate_call t [Estimate, Estimate]
        = Some (t, [HLL_Improved_estimate t, HLL_Improved_estimate t])
   \<and> map_option fst (calls HLL_Improved_add HLL_Improved_estimate_call t cs)
        = add_all HLL_Improved_add t (adds_of cs)
   \<and> map_option (\<lambda>(t', out). last out)
        (calls HLL_Improved_add HLL_Improved_estimate_call t (cs @ [Estimate]))
        = map_option HLL_Improved_estimate (add_all HLL_Improved_add t (adds_of cs))"
proof -
  have ps: "\<And>u. snd (HLL_estimate_call u) = u" by (simp add: HLL_estimate_call_eq)
  have pt: "\<And>u. snd (HLL_Improved_estimate_call u) = u"
    by (simp add: HLL_Improved_estimate_call_eq)
  have fs: "(\<lambda>s'. fst (HLL_estimate_call s')) = HLL_estimate"
    by (simp add: HLL_estimate_call_eq)
  have ft: "(\<lambda>s'. fst (HLL_Improved_estimate_call s')) = HLL_Improved_estimate"
    by (simp add: HLL_Improved_estimate_call_eq)
  have 1: "calls HLL_add HLL_estimate_call s [Estimate, Estimate]
        = Some (s, [HLL_estimate s, HLL_estimate s])"
    by (simp add: HLL_estimate_call_eq)
  have 2: "calls HLL_Improved_add HLL_Improved_estimate_call t [Estimate, Estimate]
        = Some (t, [HLL_Improved_estimate t, HLL_Improved_estimate t])"
    by (simp add: HLL_Improved_estimate_call_eq)
  from HLL_estimate_call_eq[of s] 1 calls_state[OF ps, of HLL_add s cs]
    calls_last_estimate[OF ps, of HLL_add s cs, unfolded fs]
    HLL_Improved_estimate_call_eq[of t] 2 calls_state[OF pt, of HLL_Improved_add t cs]
    calls_last_estimate[OF pt, of HLL_Improved_add t cs, unfolded ft]
  show ?thesis by (intro conjI)
qed

theorem estimate_is_observer_witness:
  "adds_of [Estimate, Add ''a'', Estimate, Add ''aAgaAXq'', Estimate] = [''a'', ''aAgaAXq'']
   \<and> map_option regs (map_option snd
        (map_option HLL_estimate_call (add_all HLL_add (HLL_new 4 hash) [''a'', ''aAgaAXq''])))
        = Some [22, 0, 0, 0, 0, 0, 0, 0, 29, 0, 0, 0, 0, 0, 0, 0]
   \<and> map_option (regs \<circ> fst)
        (calls HLL_add HLL_estimate_call (HLL_new 4 hash)
           [Estimate, Add ''a'', Estimate, Add ''aAgaAXq'', Estimate])
        = Some [22, 0, 0, 0, 0, 0, 0, 0, 29, 0, 0, 0, 0, 0, 0, 0]
   \<and> map_option (regs \<circ> fst)
        (calls HLL_Improved_add HLL_Improved_estimate_call (HLL_Improved_new 4 hash)
           [Estimate, Add ''a'', Estimate, Add ''aAgaAXq'', Estimate])
        = Some [22, 0, 0, 0, 0, 0, 0, 0, 29, 0, 0, 0, 0, 0, 0, 0]"
proof -
  have a: "adds_of [Estimate, Add ''a'', Estimate, Add ''aAgaAXq'', Estimate] = [''a'', ''aAgaAXq'']"
    by simp
  have e1: "map_option regs (add_all HLL_add (HLL_new 4 hash) [''a'', ''aAgaAXq''])
        = Some [22, 0, 0, 0, 0, 0, 0, 0, 29, 0, 0, 0, 0, 0, 0, 0]" by code_simp
  have e2: "map_option regs (add_all HLL_Improved_add (HLL_Improved_new 4 hash) [''a'', ''aAgaAXq''])
        = Some [22, 0, 0, 0, 0, 0, 0, 0, 29, 0, 0, 0, 0, 0, 0, 0]" by code_simp
  note t = estimate_is_observer[of "HLL_new 4 hash"
      "[Estimate, Add ''a'', Estimate, Add ''aAgaAXq'', Estimate]" "HLL_Improved_new 4 hash",
      unfolded a]
  have k1: "map_option fst (calls HLL_add HLL_estimate_call (HLL_new 4 hash)
           [Estimate, Add ''a'', Estimate, Add ''aAgaAXq'', Estimate])
      = add_all HLL_add (HLL_new 4 hash) [''a'', ''aAgaAXq'']"
    using t by blast
  have k2: "map_option fst (calls HLL_Improved_add HLL_Improved_estimate_call (HLL_Improved_new 4 hash)
           [Estimate, Add ''a'', Estimate, Add ''aAgaAXq'', Estimate])
      = add_all HLL_Improved_add (HLL_Improved_new 4 hash) [''a'', ''aAgaAXq'']"
    using t by blast
  have k0: "snd (HLL_estimate_call u) = u" for u
    using estimate_is_observer[of u "[]" "HLL_Improved_new 4 hash"] by simp
  have c0: "map_option regs (map_option snd
        (map_option HLL_estimate_call (add_all HLL_add (HLL_new 4 hash) [''a'', ''aAgaAXq''])))
      = map_option regs (add_all HLL_add (HLL_new 4 hash) [''a'', ''aAgaAXq''])"
    by (cases "add_all HLL_add (HLL_new 4 hash) [''a'', ''aAgaAXq'']") (simp_all add: k0)
  have c1: "map_option (regs \<circ> fst)
        (calls HLL_add HLL_estimate_call (HLL_new 4 hash)
           [Estimate, Add ''a'', Estimate, Add ''aAgaAXq'', Estimate])
      = map_option regs (add_all HLL_add (HLL_new 4 hash) [''a'', ''aAgaAXq''])"
    unfolding k1[symmetric] by (simp only: option.map_comp)
  have c2: "map_option (regs \<circ> fst)
        (calls HLL_Improved_add HLL_Improved_estimate_call (HLL_Improved_new 4 hash)
           [Estimate, Add ''a'', Estimate, Add ''aAgaAXq'', Estimate])
      = map_option regs (add_all HLL_Improved_add (HLL_Improved_new 4 hash) [''a'', ''aAgaAXq''])"
    unfolding k2[symmetric] by (simp only: option.map_comp)
  show ?thesis unfolding c0 c1 c2 e1 e2 a by simp
qed

end
